theory Spec2Isabelle
  imports Main "HOL-Library.Word"
begin

section \<open>Values, exceptions and the libraries encrypt.py calls\<close>

text \<open>
  A Python \<open>bytes\<close> object is a list of 8-bit words. The values that umsgpack produces
  and consumes are modelled for the part of MessagePack the format uses (spec.md 4.2):
  \<open>None\<close>, integers, \<open>str\<close>, \<open>bytes\<close> and lists of these. Maps, floats, booleans and
  extension types are outside the model.
\<close>

type_synonym bytes = "8 word list"

datatype pyval =
    PyNone
  | PyInt int
  | PyStr string
  | PyBytes bytes
  | PyList "pyval list"

text \<open>
  The exceptions the code can meet. \<open>CryptoError\<close> stands for every instance of
  \<open>nacl.exceptions.CryptoError\<close> (what \<open>except CryptoError\<close> catches), the others for the
  builtin classes and for the exceptions of umsgpack.
\<close>

datatype pyexn =
    CryptoError
  | TypeError
  | ValueError
  | IndexError
  | KeyError
  | OverflowError
  | RuntimeError
  | InsufficientDataException
  | UnpackException
  | UnsupportedTypeException

text \<open>
  encrypt.py imports its primitives from PyNaCl (\<open>nacl.bindings\<close>), hashlib and umsgpack;
  none of them is part of the repository. They are parameters of the model: a record with
  one field for each imported function, named as in the source. Each may raise, so each
  returns \<open>pyexn + _\<close>. An argument that \<open>decrypt\<close> hands over unchecked, as it came out of
  umsgpack, is a \<open>pyval\<close>. \<open>unpack\<close> reads one value from a stream (an \<open>io.BytesIO\<close>, here
  the bytes not yet read) and returns the value with the rest of the stream.
\<close>

record libs =
  crypto_scalarmult_base :: "bytes \<Rightarrow> pyexn + bytes"
  crypto_box :: "bytes \<Rightarrow> bytes \<Rightarrow> bytes \<Rightarrow> bytes \<Rightarrow> pyexn + bytes"
  crypto_box_beforenm :: "pyval \<Rightarrow> bytes \<Rightarrow> pyexn + bytes"
  crypto_box_afternm :: "bytes \<Rightarrow> bytes \<Rightarrow> bytes \<Rightarrow> pyexn + bytes"
  crypto_box_open_afternm :: "pyval \<Rightarrow> bytes \<Rightarrow> bytes \<Rightarrow> pyexn + bytes"
  crypto_secretbox :: "bytes \<Rightarrow> bytes \<Rightarrow> bytes \<Rightarrow> pyexn + bytes"
  crypto_secretbox_open :: "bytes \<Rightarrow> bytes \<Rightarrow> pyval \<Rightarrow> pyexn + bytes"
  sha512 :: "bytes \<Rightarrow> bytes"
  packb :: "pyval \<Rightarrow> pyexn + bytes"
  unpack :: "bytes \<Rightarrow> pyexn + pyval \<times> bytes"
  unpackb :: "bytes \<Rightarrow> pyexn + pyval"

text \<open>
  Argument order of the fields: \<open>crypto_box message nonce pk sk\<close>,
  \<open>crypto_box_beforenm pk sk\<close>, \<open>crypto_box_afternm message nonce k\<close>,
  \<open>crypto_box_open_afternm ciphertext nonce k\<close>, \<open>crypto_secretbox message nonce key\<close>,
  \<open>crypto_secretbox_open ciphertext nonce key\<close>; \<open>sha512 x\<close> is \<open>sha512(x).digest()\<close>.
\<close>

section \<open>Python's sequence operations\<close>

text \<open>\<open>xs[i:j]\<close> for a list or bytes object: negative indices count from the end, both are clipped.\<close>

definition py_slice :: "'a list \<Rightarrow> int \<Rightarrow> int \<Rightarrow> 'a list" where
  "py_slice xs i j =
     (let n = int (length xs);
          lo = (if i < 0 then max (i + n) 0 else min i n);
          hi = (if j < 0 then max (j + n) 0 else min j n)
      in take (nat (hi - lo)) (drop (nat lo) xs))"

text \<open>
  Iterating a value, as a destructuring assignment and \<open>enumerate\<close> do: a list gives its
  elements, \<open>bytes\<close> its bytes as integers, a \<open>str\<close> its characters; \<open>None\<close> and an integer
  raise TypeError.
\<close>

fun py_iter :: "pyval \<Rightarrow> pyexn + pyval list" where
  "py_iter (PyList xs) = Inr xs"
| "py_iter (PyBytes b) = Inr (map (\<lambda>w. PyInt (uint w)) b)"
| "py_iter (PyStr s) = Inr (map (\<lambda>c. PyStr [c]) s)"
| "py_iter PyNone = Inl TypeError"
| "py_iter (PyInt i) = Inl TypeError"

text \<open>\<open>[a, b] = v\<close>: ValueError unless \<open>v\<close> yields exactly two values.\<close>

definition unpack2 :: "pyval \<Rightarrow> pyexn + pyval \<times> pyval" where
  "unpack2 v =
     (case py_iter v of
        Inl e \<Rightarrow> Inl e
      | Inr xs \<Rightarrow> (case xs of [a, b] \<Rightarrow> Inr (a, b) | _ \<Rightarrow> Inl ValueError))"

text \<open>\<open>v[i]\<close> for an index \<open>i \<ge> 0\<close>.\<close>

fun py_getitem :: "pyval \<Rightarrow> nat \<Rightarrow> pyexn + pyval" where
  "py_getitem (PyList xs) i = (if i < length xs then Inr (xs ! i) else Inl IndexError)"
| "py_getitem (PyBytes b) i = (if i < length b then Inr (PyInt (uint (b ! i))) else Inl IndexError)"
| "py_getitem (PyStr s) i = (if i < length s then Inr (PyStr [s ! i]) else Inl IndexError)"
| "py_getitem PyNone i = Inl TypeError"
| "py_getitem (PyInt n) i = Inl TypeError"

text \<open>\<open>b + v\<close> for a bytes object \<open>b\<close>: TypeError unless \<open>v\<close> is bytes too.\<close>

fun bytes_add :: "bytes \<Rightarrow> pyval \<Rightarrow> pyexn + bytes" where
  "bytes_add b (PyBytes c) = Inr (b @ c)"
| "bytes_add b v = Inl TypeError"

section \<open>Utility functions\<close>

text \<open>
  \<open>chunks_with_empty\<close>: the \<open>while\<close> loop with its two variables. The loop need not end
  (nothing checks \<open>chunk_size\<close>), so it is a partial function: \<open>None\<close> is "does not return".
\<close>

partial_function (option) chunks_loop ::
  "bytes \<Rightarrow> int \<Rightarrow> int \<Rightarrow> bytes list \<Rightarrow> bytes list option" where
  "chunks_loop message chunk_size chunk_start chunks =
     (if chunk_start < int (length message)
      then chunks_loop message chunk_size (chunk_start + chunk_size)
             (chunks @ [py_slice message chunk_start (chunk_start + chunk_size)])
      else Some (chunks @ [[]]))"

declare chunks_loop.simps [code]

definition chunks_with_empty :: "bytes \<Rightarrow> int \<Rightarrow> bytes list option" where
  "chunks_with_empty message chunk_size = chunks_loop message chunk_size 0 []"

text \<open>\<open>counter\<close>: \<open>i.to_bytes(8, 'big')\<close>, which raises OverflowError outside \<open>0 .. 2^64 - 1\<close>.\<close>

definition counter :: "int \<Rightarrow> pyexn + bytes" where
  "counter i =
     (if 0 \<le> i \<and> i < 2 ^ 64
      then Inr (map (\<lambda>k. word_of_int (i div 256 ^ k)) [7, 6, 5, 4, 3, 2, 1, 0])
      else Inl OverflowError)"

section \<open>encrypt\<close>

text \<open>The constant that both directions hash: \<open>b"SaltPack\0" + b"encryption nonce prefix\0"\<close>.\<close>

definition bytes_of :: "string \<Rightarrow> bytes" where
  "bytes_of s = map (\<lambda>c. of_char c) s"

definition nonce_prefix_const :: bytes where
  "nonce_prefix_const = bytes_of ''SaltPack'' @ [0] @ bytes_of ''encryption nonce prefix'' @ [0]"

text \<open>
  The first \<open>for\<close> loop of \<open>encrypt\<close>: one \<open>[None, recipient_box]\<close> pair for each recipient,
  and the dictionary \<open>recipient_beforenms\<close> from public keys to shared secrets.
\<close>

fun recipients_loop ::
  "libs \<Rightarrow> bytes \<Rightarrow> bytes \<Rightarrow> bytes \<Rightarrow> bytes \<Rightarrow> bytes list \<Rightarrow> pyval list \<Rightarrow> (bytes \<rightharpoonup> bytes) \<Rightarrow>
   pyexn + pyval list \<times> (bytes \<rightharpoonup> bytes)" where
  "recipients_loop L sender_private ephemeral_private keys_bytes header_nonce []
     recipient_pairs recipient_beforenms = Inr (recipient_pairs, recipient_beforenms)"
| "recipients_loop L sender_private ephemeral_private keys_bytes header_nonce (recipient_public # rest)
     recipient_pairs recipient_beforenms =
     (case crypto_box L keys_bytes header_nonce recipient_public ephemeral_private of
        Inl e \<Rightarrow> Inl e
      | Inr recipient_box \<Rightarrow>
          (case crypto_box_beforenm L (PyBytes recipient_public) sender_private of
             Inl e \<Rightarrow> Inl e
           | Inr beforenm \<Rightarrow>
               recipients_loop L sender_private ephemeral_private keys_bytes header_nonce rest
                 (recipient_pairs @ [PyList [PyNone, PyBytes recipient_box]])
                 (recipient_beforenms(recipient_public \<mapsto> beforenm))))"

text \<open>The inner \<open>for\<close> loop of a packet: the payload tag boxed for each recipient.\<close>

fun tag_boxes_loop ::
  "libs \<Rightarrow> (bytes \<rightharpoonup> bytes) \<Rightarrow> bytes \<Rightarrow> bytes \<Rightarrow> bytes list \<Rightarrow> bytes list \<Rightarrow> pyexn + bytes list" where
  "tag_boxes_loop L recipient_beforenms payload_tag payload_nonce [] tag_boxes = Inr tag_boxes"
| "tag_boxes_loop L recipient_beforenms payload_tag payload_nonce (recipient_public # rest) tag_boxes =
     (case recipient_beforenms recipient_public of
        None \<Rightarrow> Inl KeyError
      | Some beforenm \<Rightarrow>
          (case crypto_box_afternm L payload_tag payload_nonce beforenm of
             Inl e \<Rightarrow> Inl e
           | Inr tag_box \<Rightarrow>
               tag_boxes_loop L recipient_beforenms payload_tag payload_nonce rest
                 (tag_boxes @ [tag_box])))"

text \<open>The body of the loop over the chunks, up to the list \<open>packet\<close>.\<close>

definition payload_packet ::
  "libs \<Rightarrow> bytes \<Rightarrow> bytes \<Rightarrow> bytes list \<Rightarrow> (bytes \<rightharpoonup> bytes) \<Rightarrow> int \<Rightarrow> bytes \<Rightarrow> pyexn + pyval" where
  "payload_packet L nonce_prefix encryption_key recipient_public_keys recipient_beforenms
     packetnum chunk =
     (case counter (packetnum + 2) of
        Inl e \<Rightarrow> Inl e
      | Inr c \<Rightarrow>
          (let payload_nonce = nonce_prefix @ c in
           case crypto_secretbox L chunk payload_nonce encryption_key of
             Inl e \<Rightarrow> Inl e
           | Inr payload_secretbox \<Rightarrow>
               (let payload_tag = take 16 payload_secretbox;
                    stripped_payload_secretbox = drop 16 payload_secretbox
                in case tag_boxes_loop L recipient_beforenms payload_tag payload_nonce
                          recipient_public_keys [] of
                     Inl e \<Rightarrow> Inl e
                   | Inr tag_boxes \<Rightarrow>
                       Inr (PyList [PyList (map PyBytes tag_boxes),
                                    PyBytes stripped_payload_secretbox]))))"

text \<open>The loop over \<open>enumerate(chunks_with_empty(message, chunk_size))\<close>, writing to \<open>output\<close>.\<close>

fun packets_loop ::
  "libs \<Rightarrow> bytes \<Rightarrow> bytes \<Rightarrow> bytes list \<Rightarrow> (bytes \<rightharpoonup> bytes) \<Rightarrow> int \<Rightarrow> bytes list \<Rightarrow> bytes \<Rightarrow>
   pyexn + bytes" where
  "packets_loop L nonce_prefix encryption_key recipient_public_keys recipient_beforenms
     packetnum [] output = Inr output"
| "packets_loop L nonce_prefix encryption_key recipient_public_keys recipient_beforenms
     packetnum (chunk # chunks) output =
     (case payload_packet L nonce_prefix encryption_key recipient_public_keys
             recipient_beforenms packetnum chunk of
        Inl e \<Rightarrow> Inl e
      | Inr packet \<Rightarrow>
          (case packb L packet of
             Inl e \<Rightarrow> Inl e
           | Inr packed \<Rightarrow>
               packets_loop L nonce_prefix encryption_key recipient_public_keys
                 recipient_beforenms (packetnum + 1) chunks (output @ packed)))"

text \<open>
  \<open>encrypt\<close>. The two results of \<open>os.urandom(32)\<close> are arguments: \<open>ephemeral_private\<close> and
  \<open>encryption_key\<close>. The result is \<open>None\<close> when the call does not return, \<open>Some (Inl e)\<close>
  when it raises \<open>e\<close>, and \<open>Some (Inr output)\<close> when it returns \<open>output\<close>.
\<close>

definition encrypt ::
  "libs \<Rightarrow> bytes \<Rightarrow> bytes \<Rightarrow> bytes \<Rightarrow> bytes list \<Rightarrow> bytes \<Rightarrow> int \<Rightarrow> (pyexn + bytes) option" where
  "encrypt L ephemeral_private encryption_key sender_private recipient_public_keys message
     chunk_size =
     (case crypto_scalarmult_base L sender_private of
        Inl e \<Rightarrow> Some (Inl e)
      | Inr sender_public \<Rightarrow>
     (case crypto_scalarmult_base L ephemeral_private of
        Inl e \<Rightarrow> Some (Inl e)
      | Inr ephemeral_public \<Rightarrow>
     (let nonce_prefix_preimage = nonce_prefix_const @ ephemeral_public;
          nonce_prefix = take 16 (sha512 L nonce_prefix_preimage);
          keys = PyList [PyBytes sender_public, PyBytes encryption_key]
      in
     (case packb L keys of
        Inl e \<Rightarrow> Some (Inl e)
      | Inr keys_bytes \<Rightarrow>
     (case counter 0 of
        Inl e \<Rightarrow> Some (Inl e)
      | Inr c0 \<Rightarrow>
     (let header_nonce = nonce_prefix @ c0 in
     (case recipients_loop L sender_private ephemeral_private keys_bytes header_nonce
             recipient_public_keys [] Map.empty of
        Inl e \<Rightarrow> Some (Inl e)
      | Inr (recipient_pairs, recipient_beforenms) \<Rightarrow>
     (let header = PyList [PyStr ''SaltBox'', PyList [PyInt 1, PyInt 0], PyInt 0,
                           PyBytes ephemeral_public, PyList recipient_pairs]
      in
     (case packb L header of
        Inl e \<Rightarrow> Some (Inl e)
      | Inr output \<Rightarrow>
     (case chunks_with_empty message chunk_size of
        None \<Rightarrow> None
      | Some chunks \<Rightarrow>
          Some (packets_loop L nonce_prefix encryption_key recipient_public_keys
                  recipient_beforenms 0 chunks output)))))))))))"

section \<open>decrypt\<close>

text \<open>
  The loop over \<open>enumerate(recipient_pairs)\<close>: the pair is taken apart before the \<open>try\<close>,
  a CryptoError moves on to the next pair, any other exception leaves the function, and
  the \<open>else\<close> branch of the loop raises RuntimeError.
\<close>

fun find_recipient ::
  "libs \<Rightarrow> bytes \<Rightarrow> bytes \<Rightarrow> nat \<Rightarrow> pyval list \<Rightarrow> pyexn + nat \<times> bytes" where
  "find_recipient L nonce_prefix ephemeral_beforenm recipient_index [] = Inl RuntimeError"
| "find_recipient L nonce_prefix ephemeral_beforenm recipient_index (pair # rest) =
     (case unpack2 pair of
        Inl e \<Rightarrow> Inl e
      | Inr (uu, recipient_box) \<Rightarrow>
          (case counter 0 of
             Inl e \<Rightarrow> Inl e
           | Inr c0 \<Rightarrow>
               (case crypto_box_open_afternm L recipient_box (nonce_prefix @ c0)
                       ephemeral_beforenm of
                  Inr keys_bytes \<Rightarrow> Inr (recipient_index, keys_bytes)
                | Inl e \<Rightarrow>
                    if e = CryptoError
                    then find_recipient L nonce_prefix ephemeral_beforenm
                           (Suc recipient_index) rest
                    else Inl e)))"

text \<open>One turn of the \<open>while True\<close> loop, up to \<open>chunk\<close>: the chunk and the stream after the packet.\<close>

definition decrypt_packet ::
  "libs \<Rightarrow> bytes \<Rightarrow> bytes \<Rightarrow> pyval \<Rightarrow> nat \<Rightarrow> bytes \<Rightarrow> int \<Rightarrow> pyexn + bytes \<times> bytes" where
  "decrypt_packet L nonce_prefix sender_beforenm encryption_key recipient_index stream packetnum =
     (case counter packetnum of
        Inl e \<Rightarrow> Inl e
      | Inr c \<Rightarrow>
     (let payload_nonce = nonce_prefix @ c in
     (case unpack L stream of
        Inl e \<Rightarrow> Inl e
      | Inr (packet, stream') \<Rightarrow>
     (case unpack2 packet of
        Inl e \<Rightarrow> Inl e
      | Inr (tag_boxes, stripped_payload_secretbox) \<Rightarrow>
     (case py_getitem tag_boxes recipient_index of
        Inl e \<Rightarrow> Inl e
      | Inr tag_box \<Rightarrow>
     (case crypto_box_open_afternm L tag_box payload_nonce sender_beforenm of
        Inl e \<Rightarrow> Inl e
      | Inr payload_tag \<Rightarrow>
     (case bytes_add payload_tag stripped_payload_secretbox of
        Inl e \<Rightarrow> Inl e
      | Inr payload_secretbox \<Rightarrow>
     (case crypto_secretbox_open L payload_secretbox payload_nonce encryption_key of
        Inl e \<Rightarrow> Inl e
      | Inr chunk \<Rightarrow> Inr (chunk, stream')))))))))"

text \<open>The \<open>while True\<close> loop: it ends at the empty chunk or at an exception.\<close>

partial_function (option) decrypt_loop ::
  "libs \<Rightarrow> bytes \<Rightarrow> bytes \<Rightarrow> pyval \<Rightarrow> nat \<Rightarrow> bytes \<Rightarrow> int \<Rightarrow> bytes \<Rightarrow> (pyexn + bytes) option" where
  "decrypt_loop L nonce_prefix sender_beforenm encryption_key recipient_index stream packetnum
     output =
     (case decrypt_packet L nonce_prefix sender_beforenm encryption_key recipient_index stream
             packetnum of
        Inl e \<Rightarrow> Some (Inl e)
      | Inr (chunk, stream') \<Rightarrow>
          if chunk = [] then Some (Inr (output @ chunk))
          else decrypt_loop L nonce_prefix sender_beforenm encryption_key recipient_index
                 stream' (packetnum + 1) (output @ chunk))"

declare decrypt_loop.simps [code]

text \<open>
  \<open>decrypt\<close> (with \<open>debug=False\<close>). The header is taken apart into five values, the second
  of them into two; \<open>format_name\<close>, \<open>major_version\<close>, \<open>minor_version\<close> and \<open>mode\<close> are bound
  and not read again. Nothing reads the stream after the loop.
\<close>

definition decrypt :: "libs \<Rightarrow> bytes \<Rightarrow> bytes \<Rightarrow> (pyexn + bytes) option" where
  "decrypt L input recipient_private =
     (case unpack L input of
        Inl e \<Rightarrow> Some (Inl e)
      | Inr (header, stream) \<Rightarrow>
     (case py_iter header of
        Inl e \<Rightarrow> Some (Inl e)
      | Inr hs \<Rightarrow>
     (case hs of
        [format_name, version, mode, ephemeral_public, recipient_pairs] \<Rightarrow>
     (case unpack2 version of
        Inl e \<Rightarrow> Some (Inl e)
      | Inr (major_version, minor_version) \<Rightarrow>
     (case bytes_add nonce_prefix_const ephemeral_public of
        Inl e \<Rightarrow> Some (Inl e)
      | Inr nonce_prefix_preimage \<Rightarrow>
     (let nonce_prefix = take 16 (sha512 L nonce_prefix_preimage) in
     (case crypto_box_beforenm L ephemeral_public recipient_private of
        Inl e \<Rightarrow> Some (Inl e)
      | Inr ephemeral_beforenm \<Rightarrow>
     (case py_iter recipient_pairs of
        Inl e \<Rightarrow> Some (Inl e)
      | Inr pairs \<Rightarrow>
     (case find_recipient L nonce_prefix ephemeral_beforenm 0 pairs of
        Inl e \<Rightarrow> Some (Inl e)
      | Inr (recipient_index, keys_bytes) \<Rightarrow>
     (case unpackb L keys_bytes of
        Inl e \<Rightarrow> Some (Inl e)
      | Inr keys \<Rightarrow>
     (case unpack2 keys of
        Inl e \<Rightarrow> Some (Inl e)
      | Inr (sender_public, encryption_key) \<Rightarrow>
     (case crypto_box_beforenm L sender_public recipient_private of
        Inl e \<Rightarrow> Some (Inl e)
      | Inr sender_beforenm \<Rightarrow>
          decrypt_loop L nonce_prefix sender_beforenm encryption_key recipient_index
            stream 2 [])))))))))
      | _ \<Rightarrow> Some (Inl ValueError))))"

section \<open>What the proofs assume of the libraries\<close>

text \<open>
  The functional laws of NaCl, for keys of 32 bytes and nonces of 24: key derivation, the
  precomputation and the two seals succeed; the shared secret of two key pairs is the same
  from both sides; \<open>crypto_box\<close> is \<open>crypto_box_afternm\<close> under the precomputed secret;
  what was sealed opens under the same nonce and key; a SHA-512 digest has 64 bytes.
\<close>

definition nacl_laws :: "libs \<Rightarrow> bool" where
  "nacl_laws L \<longleftrightarrow>
     (\<forall>sk. length sk = 32 \<longrightarrow>
        (\<exists>pk. crypto_scalarmult_base L sk = Inr pk \<and> length pk = 32)) \<and>
     (\<forall>pk sk. length pk = 32 \<longrightarrow> length sk = 32 \<longrightarrow>
        (\<exists>k. crypto_box_beforenm L (PyBytes pk) sk = Inr k \<and> length k = 32)) \<and>
     (\<forall>a b A B. length a = 32 \<longrightarrow> length b = 32 \<longrightarrow>
        crypto_scalarmult_base L a = Inr A \<longrightarrow> crypto_scalarmult_base L b = Inr B \<longrightarrow>
        crypto_box_beforenm L (PyBytes A) b = crypto_box_beforenm L (PyBytes B) a) \<and>
     (\<forall>m n pk sk k. length n = 24 \<longrightarrow> crypto_box_beforenm L (PyBytes pk) sk = Inr k \<longrightarrow>
        crypto_box L m n pk sk = crypto_box_afternm L m n k) \<and>
     (\<forall>m n k. length n = 24 \<longrightarrow> length k = 32 \<longrightarrow>
        (\<exists>c. crypto_box_afternm L m n k = Inr c)) \<and>
     (\<forall>m n k c. crypto_box_afternm L m n k = Inr c \<longrightarrow>
        crypto_box_open_afternm L (PyBytes c) n k = Inr m) \<and>
     (\<forall>m n k. length n = 24 \<longrightarrow> length k = 32 \<longrightarrow>
        (\<exists>c. crypto_secretbox L m n k = Inr c)) \<and>
     (\<forall>m n k c. crypto_secretbox L m n k = Inr c \<longrightarrow>
        crypto_secretbox_open L c n (PyBytes k) = Inr m) \<and>
     (\<forall>x. length (sha512 L x) = 64)"

text \<open>
  The idealisation behind "for every key" in a round trip: a box opens under no other
  32-byte secret than the one it was sealed under (the attempt raises CryptoError), and
  two public keys that share a secret with one private key share it with every private
  key.
\<close>

definition ideal_boxes :: "libs \<Rightarrow> bool" where
  "ideal_boxes L \<longleftrightarrow>
     (\<forall>m n k c k'. crypto_box_afternm L m n k = Inr c \<longrightarrow> length k' = 32 \<longrightarrow> k' \<noteq> k \<longrightarrow>
        crypto_box_open_afternm L (PyBytes c) n k' = Inl CryptoError) \<and>
     (\<forall>pk pk' a b k. length b = 32 \<longrightarrow>
        crypto_box_beforenm L (PyBytes pk) a = Inr k \<longrightarrow>
        crypto_box_beforenm L (PyBytes pk') a = Inr k \<longrightarrow>
        crypto_box_beforenm L (PyBytes pk) b = crypto_box_beforenm L (PyBytes pk') b)"

text \<open>
  umsgpack: what \<open>packb\<close> wrote, \<open>unpack\<close> reads back from the front of a stream, leaving
  the rest, and \<open>unpackb\<close> reads back from a bytes object.
\<close>

definition umsgpack_laws :: "libs \<Rightarrow> bool" where
  "umsgpack_laws L \<longleftrightarrow>
     (\<forall>v b rest. packb L v = Inr b \<longrightarrow> unpack L (b @ rest) = Inr (v, rest)) \<and>
     (\<forall>v b. packb L v = Inr b \<longrightarrow> unpackb L b = Inr v)"

text \<open>Reading a value from a stream does not depend on the bytes after the value.\<close>

definition unpack_prefix :: "libs \<Rightarrow> bool" where
  "unpack_prefix L \<longleftrightarrow>
     (\<forall>s v rest extra. unpack L s = Inr (v, rest) \<longrightarrow>
        unpack L (s @ extra) = Inr (v, rest @ extra))"

text \<open>At the end of the stream \<open>unpack\<close> raises InsufficientDataException.\<close>

definition unpack_eof :: "libs \<Rightarrow> bool" where
  "unpack_eof L \<longleftrightarrow> unpack L [] = Inl InsufficientDataException"

section \<open>Big-endian numbers\<close>

text \<open>
  \<open>be_bytes n v\<close> is the number \<open>v\<close> in \<open>n\<close> bytes, most significant byte first (the
  \<open>uint64_be\<close> of spec.md for \<open>n = 8\<close>), and \<open>be_val\<close> reads such bytes back.
\<close>

fun be_bytes :: "nat \<Rightarrow> nat \<Rightarrow> bytes" where
  "be_bytes 0 v = []"
| "be_bytes (Suc n) v = be_bytes n (v div 256) @ [of_nat v]"

definition be_val :: "bytes \<Rightarrow> nat" where
  "be_val bs = foldl (\<lambda>a b. a * 256 + unat b) 0 bs"

section \<open>Notions used to state the properties\<close>

text \<open>What the loop over the recipient pairs reads of a pair: its second component.\<close>

definition slot_box :: "pyval \<Rightarrow> pyexn + pyval" where
  "slot_box pair = (case unpack2 pair of Inl e \<Rightarrow> Inl e | Inr (uu, recipient_box) \<Rightarrow> Inr recipient_box)"

text \<open>
  Two sets of libraries that \<open>encrypt\<close> cannot tell apart unless it seals something under
  the nonce \<open>n\<close>: they agree on everything \<open>encrypt\<close> calls, except possibly on the three
  sealing functions at \<open>n\<close>.
\<close>

definition agree_off_nonce :: "bytes \<Rightarrow> libs \<Rightarrow> libs \<Rightarrow> bool" where
  "agree_off_nonce n L L' \<longleftrightarrow>
     crypto_scalarmult_base L' = crypto_scalarmult_base L \<and>
     crypto_box_beforenm L' = crypto_box_beforenm L \<and>
     sha512 L' = sha512 L \<and>
     packb L' = packb L \<and>
     (\<forall>m n' pk sk. n' \<noteq> n \<longrightarrow> crypto_box L' m n' pk sk = crypto_box L m n' pk sk) \<and>
     (\<forall>m n' k. n' \<noteq> n \<longrightarrow> crypto_box_afternm L' m n' k = crypto_box_afternm L m n' k) \<and>
     (\<forall>m n' k. n' \<noteq> n \<longrightarrow> crypto_secretbox L' m n' k = crypto_secretbox L m n' k)"

section \<open>An executable stand-in for the libraries\<close>

text \<open>
  To run the model on concrete inputs the parameters need values. \<open>toy_libs\<close> has the
  interface and the laws above, and nothing of NaCl's security: a shared secret is the
  bytewise sum of the two keys, a box is the key, the nonce and the message in a row, and
  the digest is the reversed input, padded. Its umsgpack is MessagePack proper, for the
  values of \<open>pyval\<close> (non-negative integers and ASCII strings only).
\<close>

definition read_n :: "nat \<Rightarrow> bytes \<Rightarrow> pyexn + bytes \<times> bytes" where
  "read_n n s = (if length s < n then Inl InsufficientDataException else Inr (take n s, drop n s))"

definition ascii :: "string \<Rightarrow> bool" where
  "ascii s = list_all (\<lambda>c. of_char c < (128::nat)) s"

fun toy_packb :: "pyval \<Rightarrow> pyexn + bytes"
and toy_packb_list :: "pyval list \<Rightarrow> pyexn + bytes" where
  "toy_packb PyNone = Inr [0xc0]"
| "toy_packb (PyInt i) =
     (if i < 0 then Inl UnsupportedTypeException
      else if i < 2 ^ 7 then Inr [of_int i]
      else if i < 2 ^ 8 then Inr (0xcc # be_bytes 1 (nat i))
      else if i < 2 ^ 16 then Inr (0xcd # be_bytes 2 (nat i))
      else if i < 2 ^ 32 then Inr (0xce # be_bytes 4 (nat i))
      else if i < 2 ^ 64 then Inr (0xcf # be_bytes 8 (nat i))
      else Inl UnsupportedTypeException)"
| "toy_packb (PyStr s) =
     (let n = length s in
      if \<not> ascii s then Inl UnsupportedTypeException
      else if n < 32 then Inr ((0xa0 + of_nat n) # bytes_of s)
      else if n < 2 ^ 8 then Inr (0xd9 # be_bytes 1 n @ bytes_of s)
      else if n < 2 ^ 16 then Inr (0xda # be_bytes 2 n @ bytes_of s)
      else if n < 2 ^ 32 then Inr (0xdb # be_bytes 4 n @ bytes_of s)
      else Inl UnsupportedTypeException)"
| "toy_packb (PyBytes b) =
     (let n = length b in
      if n < 2 ^ 8 then Inr (0xc4 # be_bytes 1 n @ b)
      else if n < 2 ^ 16 then Inr (0xc5 # be_bytes 2 n @ b)
      else if n < 2 ^ 32 then Inr (0xc6 # be_bytes 4 n @ b)
      else Inl UnsupportedTypeException)"
| "toy_packb (PyList xs) =
     (let n = length xs in
      case toy_packb_list xs of
        Inl e \<Rightarrow> Inl e
      | Inr body \<Rightarrow>
          if n < 16 then Inr ((0x90 + of_nat n) # body)
          else if n < 2 ^ 16 then Inr (0xdc # be_bytes 2 n @ body)
          else if n < 2 ^ 32 then Inr (0xdd # be_bytes 4 n @ body)
          else Inl UnsupportedTypeException)"
| "toy_packb_list [] = Inr []"
| "toy_packb_list (x # xs) =
     (case toy_packb x of
        Inl e \<Rightarrow> Inl e
      | Inr b \<Rightarrow> (case toy_packb_list xs of Inl e \<Rightarrow> Inl e | Inr bs \<Rightarrow> Inr (b @ bs)))"

definition unpack_uint :: "nat \<Rightarrow> bytes \<Rightarrow> pyexn + pyval \<times> bytes" where
  "unpack_uint k s =
     (case read_n k s of Inl e \<Rightarrow> Inl e | Inr (h, t) \<Rightarrow> Inr (PyInt (int (be_val h)), t))"

definition unpack_bin :: "nat \<Rightarrow> bytes \<Rightarrow> pyexn + pyval \<times> bytes" where
  "unpack_bin n s =
     (case read_n n s of Inl e \<Rightarrow> Inl e | Inr (h, t) \<Rightarrow> Inr (PyBytes h, t))"

definition unpack_str :: "nat \<Rightarrow> bytes \<Rightarrow> pyexn + pyval \<times> bytes" where
  "unpack_str n s =
     (case read_n n s of
        Inl e \<Rightarrow> Inl e
      | Inr (h, t) \<Rightarrow>
          if list_all (\<lambda>w. w < 0x80) h then Inr (PyStr (map (\<lambda>w. char_of (unat w)) h), t)
          else Inl UnpackException)"

definition with_len ::
  "nat \<Rightarrow> bytes \<Rightarrow> (nat \<Rightarrow> bytes \<Rightarrow> pyexn + pyval \<times> bytes) \<Rightarrow> pyexn + pyval \<times> bytes" where
  "with_len k s f = (case read_n k s of Inl e \<Rightarrow> Inl e | Inr (h, t) \<Rightarrow> f (be_val h) t)"

fun toy_unpack_fuel :: "nat \<Rightarrow> bytes \<Rightarrow> pyexn + pyval \<times> bytes"
and toy_unpack_items :: "nat \<Rightarrow> nat \<Rightarrow> bytes \<Rightarrow> pyexn + pyval list \<times> bytes" where
  "toy_unpack_fuel 0 s = Inl InsufficientDataException"
| "toy_unpack_fuel (Suc f) [] = Inl InsufficientDataException"
| "toy_unpack_fuel (Suc f) (b # s) =
     (let list_of = (\<lambda>n t. case toy_unpack_items f n t of
                              Inl e \<Rightarrow> Inl e | Inr (xs, t') \<Rightarrow> Inr (PyList xs, t'))
      in
      if b < 0x80 then Inr (PyInt (uint b), s)
      else if b < 0x90 then Inl UnpackException
      else if b < 0xa0 then list_of (unat b - 0x90) s
      else if b < 0xc0 then unpack_str (unat b - 0xa0) s
      else if b = 0xc0 then Inr (PyNone, s)
      else if b = 0xc4 then with_len 1 s unpack_bin
      else if b = 0xc5 then with_len 2 s unpack_bin
      else if b = 0xc6 then with_len 4 s unpack_bin
      else if b = 0xcc then unpack_uint 1 s
      else if b = 0xcd then unpack_uint 2 s
      else if b = 0xce then unpack_uint 4 s
      else if b = 0xcf then unpack_uint 8 s
      else if b = 0xd9 then with_len 1 s unpack_str
      else if b = 0xda then with_len 2 s unpack_str
      else if b = 0xdb then with_len 4 s unpack_str
      else if b = 0xdc then with_len 2 s list_of
      else if b = 0xdd then with_len 4 s list_of
      else Inl UnpackException)"
| "toy_unpack_items f 0 s = Inr ([], s)"
| "toy_unpack_items f (Suc n) s =
     (case toy_unpack_fuel f s of
        Inl e \<Rightarrow> Inl e
      | Inr (x, t) \<Rightarrow>
          (case toy_unpack_items f n t of
             Inl e \<Rightarrow> Inl e
           | Inr (xs, t') \<Rightarrow> Inr (x # xs, t')))"

definition toy_unpack :: "bytes \<Rightarrow> pyexn + pyval \<times> bytes" where
  "toy_unpack s = toy_unpack_fuel (length s) s"


definition toy_unpackb :: "bytes \<Rightarrow> pyexn + pyval" where
  "toy_unpackb s = (case toy_unpack s of Inl e \<Rightarrow> Inl e | Inr (v, t) \<Rightarrow> Inr v)"

definition toy_scalarmult_base :: "bytes \<Rightarrow> pyexn + bytes" where
  "toy_scalarmult_base sk = (if length sk = 32 then Inr (map (\<lambda>w. w + 9) sk) else Inl ValueError)"

fun toy_beforenm :: "pyval \<Rightarrow> bytes \<Rightarrow> pyexn + bytes" where
  "toy_beforenm (PyBytes pk) sk =
     (if length pk = 32 \<and> length sk = 32 then Inr (map2 (+) pk sk) else Inl ValueError)"
| "toy_beforenm v sk = Inl TypeError"

definition toy_seal :: "bytes \<Rightarrow> bytes \<Rightarrow> bytes \<Rightarrow> pyexn + bytes" where
  "toy_seal message nonce k =
     (if length nonce = 24 \<and> length k = 32 then Inr (k @ nonce @ message) else Inl ValueError)"

definition toy_open :: "bytes \<Rightarrow> bytes \<Rightarrow> bytes \<Rightarrow> pyexn + bytes" where
  "toy_open ciphertext nonce k =
     (if length nonce = 24 \<and> length k = 32
      then (if take 56 ciphertext = k @ nonce then Inr (drop 56 ciphertext) else Inl CryptoError)
      else Inl ValueError)"

definition toy_box :: "bytes \<Rightarrow> bytes \<Rightarrow> bytes \<Rightarrow> bytes \<Rightarrow> pyexn + bytes" where
  "toy_box message nonce pk sk =
     (case toy_beforenm (PyBytes pk) sk of Inl e \<Rightarrow> Inl e | Inr k \<Rightarrow> toy_seal message nonce k)"

fun toy_open_afternm :: "pyval \<Rightarrow> bytes \<Rightarrow> bytes \<Rightarrow> pyexn + bytes" where
  "toy_open_afternm (PyBytes c) nonce k = toy_open c nonce k"
| "toy_open_afternm v nonce k = Inl TypeError"

fun toy_secretbox_open :: "bytes \<Rightarrow> bytes \<Rightarrow> pyval \<Rightarrow> pyexn + bytes" where
  "toy_secretbox_open c nonce (PyBytes key) = toy_open c nonce key"
| "toy_secretbox_open c nonce v = Inl TypeError"

definition toy_sha512 :: "bytes \<Rightarrow> bytes" where
  "toy_sha512 x = take 64 (rev x @ replicate 64 0)"

definition toy_libs :: libs where
  "toy_libs = \<lparr>
     crypto_scalarmult_base = toy_scalarmult_base,
     crypto_box = toy_box,
     crypto_box_beforenm = toy_beforenm,
     crypto_box_afternm = toy_seal,
     crypto_box_open_afternm = toy_open_afternm,
     crypto_secretbox = toy_seal,
     crypto_secretbox_open = toy_secretbox_open,
     sha512 = toy_sha512,
     packb = toy_packb,
     unpack = toy_unpack,
     unpackb = toy_unpackb \<rparr>"


section \<open>A concrete message\<close>

text \<open>
  The running example, on the stand-in: \<open>jack_private\<close> (the key hardcoded in encrypt.py)
  sends the two bytes \<open>hi\<close> to himself in chunks of one byte. \<open>frame\<close> writes values one
  after the other, as the encoder does; the header and the packets are spelled out, so
  that single fields can be changed.
\<close>

definition frame :: "pyval list \<Rightarrow> bytes" where
  "frame vs = concat (map (\<lambda>v. case toy_packb v of Inr b \<Rightarrow> b | Inl e \<Rightarrow> []) vs)"

definition jack_private :: bytes where "jack_private = replicate 32 0xAA"

definition example_nonce :: "nat \<Rightarrow> bytes" where
  "example_nonce i = replicate 16 0x0A @ replicate 7 0 @ [of_nat i]"

definition example_slot :: "pyval \<Rightarrow> pyval" where
  "example_slot recipient_id =
     PyList [recipient_id,
       PyBytes (replicate 32 0xB4 @ example_nonce 0 @
                [0x92, 0xC4, 0x20] @ replicate 32 0xB3 @ [0xC4, 0x20] @ replicate 32 7)]"

definition example_header :: "pyval \<Rightarrow> pyval \<Rightarrow> pyval \<Rightarrow> pyval list \<Rightarrow> pyval" where
  "example_header format_name version mode slots =
     PyList [format_name, version, mode, PyBytes (replicate 32 0x0A), PyList slots]"

definition example_tag_box :: "nat \<Rightarrow> bytes" where
  "example_tag_box i = replicate 32 0x5D @ example_nonce i @ replicate 16 7"

definition example_packet :: "nat \<Rightarrow> bytes list \<Rightarrow> bytes \<Rightarrow> pyval" where
  "example_packet i tag_boxes chunk =
     PyList [PyList (map PyBytes tag_boxes), PyBytes (replicate 16 7 @ example_nonce i @ chunk)]"

definition example_packets :: "pyval list" where
  "example_packets =
     [example_packet 2 [example_tag_box 2] [0x68],
      example_packet 3 [example_tag_box 3] [0x69],
      example_packet 4 [example_tag_box 4] []]"

definition example_ciphertext :: bytes where
  "example_ciphertext =
     frame (example_header (PyStr ''SaltBox'') (PyList [PyInt 1, PyInt 0]) (PyInt 0)
              [example_slot PyNone] # example_packets)"

text \<open>
  Variants of the example: a header with a first slot that is not for jack (with packets
  that carry two tag boxes, jack's second), packets whose \<open>tag_boxes\<close> lists are longer
  than the header's one slot, and libraries that refuse to seal a payload under counter 1.
\<close>

definition example_two_slots :: "pyval list" where
  "example_two_slots = [PyList [PyNone, PyBytes [1, 2, 3]], example_slot PyNone]"

definition example_packets2 :: "pyval list" where
  "example_packets2 =
     [example_packet 2 [[9], example_tag_box 2] [0x68],
      example_packet 3 [[9], example_tag_box 3] [0x69],
      example_packet 4 [[9], example_tag_box 4] []]"

definition example_packets_extra :: "pyval list" where
  "example_packets_extra =
     [example_packet 2 [example_tag_box 2, [0xFF]] [0x68],
      example_packet 3 [example_tag_box 3, [], []] [0x69],
      example_packet 4 [example_tag_box 4] []]"

definition toy_libs_without_counter1 :: libs where
  "toy_libs_without_counter1 =
     toy_libs \<lparr> crypto_secretbox :=
       (\<lambda>message nonce key.
          if nonce = example_nonce 1 then Inl RuntimeError else toy_seal message nonce key) \<rparr>"

section \<open>chunks_with_empty\<close>

lemma py_slice_chunk:
  "0 \<le> s \<Longrightarrow> 1 \<le> c \<Longrightarrow> s < int (length xs) \<Longrightarrow>
   py_slice xs s (s + c) = take (nat c) (drop (nat s) xs)"
  by (auto simp: py_slice_def Let_def min_def max_def nat_diff_distrib intro!: arg_cong2[where f=take])

lemma chunks_loop_terminates:
  assumes "1 \<le> chunk_size" "0 \<le> chunk_start"
  shows "\<exists>cks. chunks_loop message chunk_size chunk_start acc = Some (acc @ cks @ [[]]) \<and>
           concat cks = drop (nat chunk_start) message \<and>
           (\<forall>c \<in> set cks. c \<noteq> [] \<and> int (length c) \<le> chunk_size)"
  using assms
proof (induction "nat (int (length message) - chunk_start)" arbitrary: chunk_start acc rule: less_induct)
  case less
  show ?case
  proof (cases "chunk_start < int (length message)")
    case False
    then show ?thesis using less.prems
      by (subst chunks_loop.simps) simp
  next
    case True
    let ?c = "py_slice message chunk_start (chunk_start + chunk_size)"
    have c: "?c = take (nat chunk_size) (drop (nat chunk_start) message)"
      by (rule py_slice_chunk) (use less.prems True in auto)
    have "nat (int (length message) - (chunk_start + chunk_size)) < nat (int (length message) - chunk_start)"
      using True less.prems by linarith
    from less.hyps[OF this, of "acc @ [?c]"] less.prems
    obtain cks where cks: "chunks_loop message chunk_size (chunk_start + chunk_size) (acc @ [?c]) = Some ((acc @ [?c]) @ cks @ [[]])"
      "concat cks = drop (nat (chunk_start + chunk_size)) message"
      "\<forall>c \<in> set cks. c \<noteq> [] \<and> int (length c) \<le> chunk_size"
      by auto
    have ne: "?c \<noteq> []" using True less.prems by (simp add: c)
    have len: "int (length ?c) \<le> chunk_size" using less.prems by (simp add: c)
    have "nat (chunk_start + chunk_size) = nat chunk_size + nat chunk_start"
      using less.prems by simp
    then have "concat cks = drop (nat chunk_size) (drop (nat chunk_start) message)"
      using cks(2) by (simp only: drop_drop)
    then have cc: "concat (?c # cks) = drop (nat chunk_start) message"
      by (simp only: concat.simps c append_take_drop_id)
    have "chunks_loop message chunk_size chunk_start acc = Some (acc @ (?c # cks) @ [[]])"
      using True cks(1) by (subst chunks_loop.simps) simp
    with cc ne len cks(3) show ?thesis
      by (intro exI[of _ "?c # cks"]) auto
  qed
qed


lemma chunks_loop_Some_guard:
  assumes "chunks_loop message chunk_size chunk_start acc = Some r"
  shows "\<not> (chunk_size \<le> 0 \<and> chunk_start < int (length message))"
proof (rule chunks_loop.raw_induct
        [where P = "\<lambda>m cs st acc r. \<not> (cs \<le> 0 \<and> st < int (length m))", OF _ assms],
       goal_cases)
  case (1 f m cs st acc r)
  show ?case
  proof
    assume a: "cs \<le> 0 \<and> st < int (length m)"
    with 1(2) have "f m cs (st + cs) (acc @ [py_slice m st (st + cs)]) = Some r"
      by simp
    from 1(1)[OF this] a show False by simp
  qed
qed

lemma chunks_loop_diverges:
  "chunk_size \<le> 0 \<Longrightarrow> chunk_start < int (length message) \<Longrightarrow>
   chunks_loop message chunk_size chunk_start acc = None"
  using chunks_loop_Some_guard[of message chunk_size chunk_start acc]
  by (cases "chunks_loop message chunk_size chunk_start acc") auto

text \<open>
  C9. For every message and every \<open>chunk_size \<ge> 1\<close>, \<open>chunks_with_empty\<close> returns: a
  non-empty list of chunks whose concatenation is the message, each no longer than
  \<open>chunk_size\<close>, the last one empty and the others not. The bound on \<open>chunk_size\<close> is
  needed: with \<open>chunk_size \<le> 0\<close> and a non-empty message the loop does not return.
\<close>

theorem chunks_with_empty_terminates:
  "(1 \<le> chunk_size \<longrightarrow>
      (\<exists>chunks. chunks_with_empty message chunk_size = Some chunks \<and>
         concat chunks = message \<and>
         (\<forall>c \<in> set chunks. int (length c) \<le> chunk_size) \<and>
         chunks \<noteq> [] \<and> last chunks = [] \<and>
         (\<forall>c \<in> set (butlast chunks). c \<noteq> []))) \<and>
   (chunk_size \<le> 0 \<longrightarrow> message \<noteq> [] \<longrightarrow> chunks_with_empty message chunk_size = None)"
proof (intro conjI impI)
  assume "1 \<le> chunk_size"
  from chunks_loop_terminates[OF this, of 0 message "[]"]
  obtain cks where cks: "chunks_loop message chunk_size 0 [] = Some (cks @ [[]])"
    "concat cks = message" "\<forall>c \<in> set cks. c \<noteq> [] \<and> int (length c) \<le> chunk_size"
    by auto
  from \<open>1 \<le> chunk_size\<close> cks
  show "\<exists>chunks. chunks_with_empty message chunk_size = Some chunks \<and>
         concat chunks = message \<and>
         (\<forall>c \<in> set chunks. int (length c) \<le> chunk_size) \<and>
         chunks \<noteq> [] \<and> last chunks = [] \<and>
         (\<forall>c \<in> set (butlast chunks). c \<noteq> [])"
    by (intro exI[of _ "cks @ [[]]"]) (auto simp: chunks_with_empty_def)
next
  assume "chunk_size \<le> 0" "message \<noteq> []"
  then show "chunks_with_empty message chunk_size = None"
    unfolding chunks_with_empty_def by (intro chunks_loop_diverges) auto
qed

theorem chunks_with_empty_terminates_witness:
  "(1::int) \<le> 2 \<and>
   chunks_with_empty [1, 2, 3, 4, 5] 2 = Some [[1, 2], [3, 4], [5], []] \<and>
   (0::int) \<le> 0 \<and> [1::8 word] \<noteq> [] \<and> chunks_with_empty [1] 0 = None"
proof -
  have "chunks_with_empty [1, 2, 3, 4, 5] 2 = Some [[1, 2], [3, 4], [5], []]"
    by (simp add: chunks_with_empty_def chunks_loop.simps py_slice_def)
  moreover have "chunks_with_empty [1] 0 = None"
    using chunks_with_empty_terminates[of 0 "[1]"] by simp
  moreover have "\<exists>chunks. chunks_with_empty [1, 2, 3, 4, 5] 2 = Some chunks \<and>
      concat chunks = [1, 2, 3, 4, 5]"
    using chunks_with_empty_terminates[of 2 "[1, 2, 3, 4, 5]"] by auto
  ultimately show ?thesis by simp
qed

section \<open>The stand-in has the laws\<close>

lemma length_be_bytes [simp]: "length (be_bytes n v) = n"
  by (induction n arbitrary: v) auto

lemma be_val_snoc: "be_val (xs @ [b]) = be_val xs * 256 + unat b"
  by (simp add: be_val_def)

lemma be_val_be_bytes: "v < 256 ^ n \<Longrightarrow> be_val (be_bytes n v) = v"
proof (induction n arbitrary: v)
  case 0
  then show ?case by (simp add: be_val_def)
next
  case (Suc n)
  then have "v div 256 < 256 ^ n"
    by (simp add: less_mult_imp_div_less mult.commute)
  with Suc.IH have "be_val (be_bytes n (v div 256)) = v div 256" by blast
  moreover have "unat (of_nat v :: 8 word) = v mod 256"
    by (simp add: unat_of_nat)
  ultimately show ?case by (simp add: be_val_snoc)
qed

lemma toy_sym: "length a = 32 \<Longrightarrow> length b = 32 \<Longrightarrow>
  map2 (+) (map (\<lambda>w. w + 9) a) b = map2 (+) (map (\<lambda>w. w + (9::8 word)) b) a"
  by (rule nth_equalityI) (auto simp: ac_simps)

lemma map2_add_inj: "length (a::8 word list) = length c \<Longrightarrow> length b = length c \<Longrightarrow>
  map2 (+) a c = map2 (+) b c \<Longrightarrow> a = b"
proof (rule nth_equalityI)
  assume l: "length a = length c" "length b = length c" and e: "map2 (+) a c = map2 (+) b c"
  show "length a = length b" using l by simp
  fix i assume i: "i < length a"
  then have "map2 (+) a c ! i = map2 (+) b c ! i" using e by simp
  with i l show "a ! i = b ! i" by simp
qed

lemma toy_nacl_laws: "nacl_laws toy_libs"
  unfolding nacl_laws_def
  by (auto simp: toy_libs_def toy_scalarmult_base_def toy_seal_def toy_open_def toy_box_def
      toy_sha512_def toy_sym)

lemma toy_ideal_boxes: "ideal_boxes toy_libs"
  unfolding ideal_boxes_def
  by (auto simp: toy_libs_def toy_seal_def toy_open_def split: if_splits dest: map2_add_inj[rotated 2])

lemma toy_unpack_eof: "unpack_eof toy_libs"
  by (simp add: unpack_eof_def toy_libs_def toy_unpack_def)

declare be_bytes.simps [simp del]

lemma fixarr_unat: "n < 16 \<Longrightarrow> unat (0x90 + of_nat n :: 8 word) = 144 + n"
  by (simp add: unat_word_ariths unat_of_nat)

lemma fixstr_unat: "n < 32 \<Longrightarrow> unat (0xa0 + of_nat n :: 8 word) = 160 + n"
  by (simp add: unat_word_ariths unat_of_nat)

lemma fixint_unat: "0 \<le> i \<Longrightarrow> i < 128 \<Longrightarrow> uint (of_int i :: 8 word) = i"
  by (simp add: uint_word_of_int take_bit_int_eq_self)

lemma fixint_less: "0 \<le> i \<Longrightarrow> i < 128 \<Longrightarrow> (of_int i :: 8 word) < 0x80"
  by (simp add: word_less_def fixint_unat)

lemma unat_of_char: "unat (of_char c :: 8 word) = of_char c"
proof -
  have "(of_char c :: 8 word) = of_nat (of_char c)" by (simp add: of_nat_of_char)
  moreover have "(of_char c :: nat) < 256" by simp
  ultimately show ?thesis by (simp only: unat_of_nat) simp
qed

lemma str_back: "ascii s \<Longrightarrow> map (\<lambda>w. char_of (unat w)) (bytes_of s) = s"
  by (induction s) (auto simp: bytes_of_def ascii_def unat_of_char)

lemma str_ascii: "ascii s \<Longrightarrow> list_all (\<lambda>w. w < 0x80) (bytes_of s)"
  by (induction s) (auto simp: bytes_of_def ascii_def word_less_nat_alt unat_of_char)

lemma length_bytes_of [simp]: "length (bytes_of s) = length s"
  by (simp add: bytes_of_def)

lemma unpack_str_back:
  "ascii s \<Longrightarrow> unpack_str (length s) (bytes_of s @ t) = Inr (PyStr s, t)"
  by (simp add: unpack_str_def read_n_def str_back str_ascii)

lemma unpack_bin_back: "unpack_bin (length b) (b @ t) = Inr (PyBytes b, t)"
  by (simp add: unpack_bin_def read_n_def)

lemma unpack_uint_back:
  "v < 256 ^ n \<Longrightarrow> unpack_uint n (be_bytes n v @ t) = Inr (PyInt (int v), t)"
  by (simp add: unpack_uint_def read_n_def be_val_be_bytes)

lemma with_len_back:
  "v < 256 ^ n \<Longrightarrow> with_len n (be_bytes n v @ t) f = f v t"
  by (simp add: with_len_def read_n_def be_val_be_bytes)

lemma toy_roundtrip:
  "(\<forall>b f rest. toy_packb v = Inr b \<longrightarrow> length b \<le> f \<longrightarrow>
       toy_unpack_fuel f (b @ rest) = Inr (v, rest))"
  "(\<forall>bs f rest. toy_packb_list xs = Inr bs \<longrightarrow> length bs \<le> f \<longrightarrow>
       toy_unpack_items f (length xs) (bs @ rest) = Inr (xs, rest))"
proof (induction v and xs rule: toy_packb_toy_packb_list.induct)
  case 1
  show ?case
  proof (intro allI impI)
    fix b f rest assume "toy_packb PyNone = Inr b" "length b \<le> f"
    then obtain f' where "f = Suc f'" "b = [0xc0]" by (cases f) auto
    then show "toy_unpack_fuel f (b @ rest) = Inr (PyNone, rest)" by simp
  qed
next
  case (2 i)
  show ?case
  proof (intro allI impI)
    fix b f rest assume a: "toy_packb (PyInt i) = Inr b" "length b \<le> f"
    then have "b \<noteq> []" by (auto split: if_splits)
    with a obtain f' where f: "f = Suc f'" by (cases f) auto
    from a(1) have i0: "0 \<le> i" by (auto split: if_splits)
    consider "i < 2^7" | "2^7 \<le> i" "i < 2^8" | "2^8 \<le> i" "i < 2^16" | "2^16 \<le> i" "i < 2^32"
      | "2^32 \<le> i" "i < 2^64" | "2^64 \<le> i" by linarith
    then show "toy_unpack_fuel f (b @ rest) = Inr (PyInt i, rest)"
    proof cases
      case 1
      with a i0 have "b = [of_int i]" by auto
      with 1 i0 f show ?thesis by (simp add: fixint_less fixint_unat)
    next
      case 2
      then have "nat i < 256 ^ 1" by simp
      moreover from 2 a i0 have "b = 0xcc # be_bytes 1 (nat i)" by auto
      ultimately show ?thesis using f i0 by (simp add: unpack_uint_back)
    next
      case 3
      then have "nat i < 256 ^ 2" by simp
      moreover from 3 a i0 have "b = 0xcd # be_bytes 2 (nat i)" by auto
      ultimately show ?thesis using f i0 by (simp add: unpack_uint_back)
    next
      case 4
      then have "nat i < 256 ^ 4" by simp
      moreover from 4 a i0 have "b = 0xce # be_bytes 4 (nat i)" by auto
      ultimately show ?thesis using f i0 by (simp add: unpack_uint_back)
    next
      case 5
      then have "nat i < 256 ^ 8" by simp
      moreover from 5 a i0 have "b = 0xcf # be_bytes 8 (nat i)" by auto
      ultimately show ?thesis using f i0 by (simp add: unpack_uint_back)
    next
      case 6
      with a show ?thesis by simp
    qed
  qed
next
  case (3 s)
  show ?case
  proof (intro allI impI)
    fix b f rest assume a: "toy_packb (PyStr s) = Inr b" "length b \<le> f"
    then have "b \<noteq> []" by (auto simp: Let_def split: if_splits)
    with a obtain f' where f: "f = Suc f'" by (cases f) auto
    from a(1) have asc: "ascii s" by (auto simp: Let_def split: if_splits)
    let ?n = "length s"
    consider "?n < 32" | "32 \<le> ?n" "?n < 2^8" | "2^8 \<le> ?n" "?n < 2^16" | "2^16 \<le> ?n" "?n < 2^32"
      | "2^32 \<le> ?n" by linarith
    then show "toy_unpack_fuel f (b @ rest) = Inr (PyStr s, rest)"
    proof cases
      case 1
      with a asc have "b = (0xa0 + of_nat ?n) # bytes_of s" by (auto simp: Let_def)
      with 1 asc f show ?thesis
        by (simp add: word_less_nat_alt fixstr_unat unpack_str_back)
    next
      case 2
      then have "?n < 256 ^ 1" by simp
      moreover from 2 a asc have "b = 0xd9 # be_bytes 1 ?n @ bytes_of s" by (auto simp: Let_def)
      ultimately show ?thesis using f asc by (simp add: with_len_back unpack_str_back)
    next
      case 3
      then have "?n < 256 ^ 2" by simp
      moreover from 3 a asc have "b = 0xda # be_bytes 2 ?n @ bytes_of s" by (auto simp: Let_def)
      ultimately show ?thesis using f asc by (simp add: with_len_back unpack_str_back)
    next
      case 4
      then have "?n < 256 ^ 4" by simp
      moreover from 4 a asc have "b = 0xdb # be_bytes 4 ?n @ bytes_of s" by (auto simp: Let_def)
      ultimately show ?thesis using f asc by (simp add: with_len_back unpack_str_back)
    next
      case 5
      with a show ?thesis by (auto simp: Let_def split: if_splits)
    qed
  qed
next
  case (4 bb)
  show ?case
  proof (intro allI impI)
    fix b f rest assume a: "toy_packb (PyBytes bb) = Inr b" "length b \<le> f"
    then have "b \<noteq> []" by (auto simp: Let_def split: if_splits)
    with a obtain f' where f: "f = Suc f'" by (cases f) auto
    let ?n = "length bb"
    consider "?n < 2^8" | "2^8 \<le> ?n" "?n < 2^16" | "2^16 \<le> ?n" "?n < 2^32"
      | "2^32 \<le> ?n" by linarith
    then show "toy_unpack_fuel f (b @ rest) = Inr (PyBytes bb, rest)"
    proof cases
      case 1
      then have "?n < 256 ^ 1" by simp
      moreover from 1 a have "b = 0xc4 # be_bytes 1 ?n @ bb" by (auto simp: Let_def)
      ultimately show ?thesis using f by (simp add: with_len_back unpack_bin_back)
    next
      case 2
      then have "?n < 256 ^ 2" by simp
      moreover from 2 a have "b = 0xc5 # be_bytes 2 ?n @ bb" by (auto simp: Let_def)
      ultimately show ?thesis using f by (simp add: with_len_back unpack_bin_back)
    next
      case 3
      then have "?n < 256 ^ 4" by simp
      moreover from 3 a have "b = 0xc6 # be_bytes 4 ?n @ bb" by (auto simp: Let_def)
      ultimately show ?thesis using f by (simp add: with_len_back unpack_bin_back)
    next
      case 4
      with a show ?thesis by (auto simp: Let_def split: if_splits)
    qed
  qed
next
  case (5 xs)
  show ?case
  proof (intro allI impI)
    fix b f rest assume a: "toy_packb (PyList xs) = Inr b" "length b \<le> f"
    then obtain body where body: "toy_packb_list xs = Inr body"
      by (auto simp: Let_def split: sum.splits)
    from a body have "b \<noteq> []" by (auto simp: Let_def split: if_splits)
    with a obtain f' where f: "f = Suc f'" by (cases f) auto
    from a body f have fb: "length body \<le> f'" by (auto simp: Let_def split: if_splits)
    from 5 body fb have items: "toy_unpack_items f' (length xs) (body @ rest) = Inr (xs, rest)"
      by blast
    let ?n = "length xs"
    consider "?n < 16" | "16 \<le> ?n" "?n < 2^16" | "2^16 \<le> ?n" "?n < 2^32"
      | "2^32 \<le> ?n" by linarith
    then show "toy_unpack_fuel f (b @ rest) = Inr (PyList xs, rest)"
    proof cases
      case 1
      with a body have "b = (0x90 + of_nat ?n) # body" by (auto simp: Let_def)
      with 1 f items show ?thesis
        by (simp add: word_less_nat_alt fixarr_unat)
    next
      case 2
      then have "?n < 256 ^ 2" by simp
      moreover from 2 a body have "b = 0xdc # be_bytes 2 ?n @ body" by (auto simp: Let_def)
      ultimately show ?thesis using f items by (simp add: with_len_back)
    next
      case 3
      then have "?n < 256 ^ 4" by simp
      moreover from 3 a body have "b = 0xdd # be_bytes 4 ?n @ body" by (auto simp: Let_def)
      ultimately show ?thesis using f items by (simp add: with_len_back)
    next
      case 4
      with a body show ?thesis by (auto simp: Let_def split: if_splits)
    qed
  qed
next
  case 6
  show ?case by simp
next
  case (7 x xs)
  show ?case
  proof (intro allI impI)
    fix bs f rest assume a: "toy_packb_list (x # xs) = Inr bs" "length bs \<le> f"
    then obtain b1 b2 where b: "toy_packb x = Inr b1" "toy_packb_list xs = Inr b2" "bs = b1 @ b2"
      by (auto split: sum.splits)
    from 7(1) b a have "toy_unpack_fuel f (b1 @ b2 @ rest) = Inr (x, b2 @ rest)" by simp
    moreover from 7(2) b a have "toy_unpack_items f (length xs) (b2 @ rest) = Inr (xs, rest)"
      by simp
    ultimately show "toy_unpack_items f (length (x # xs)) (bs @ rest) = Inr (x # xs, rest)"
      using b by simp
  qed
qed

lemma toy_unpack_packb:
  "toy_packb v = Inr b \<Longrightarrow> toy_unpack (b @ rest) = Inr (v, rest)"
  using toy_roundtrip(1)[rule_format, of v b "length (b @ rest)" rest]
  by (simp add: toy_unpack_def)

lemma toy_umsgpack_laws: "umsgpack_laws toy_libs"
  unfolding umsgpack_laws_def
  using toy_unpack_packb toy_unpack_packb[where rest = "[]"]
  by (auto simp: toy_libs_def toy_unpackb_def)

lemma read_n_prefix: "read_n n s = Inr (h, t) \<Longrightarrow> read_n n (s @ e) = Inr (h, t @ e)"
  by (auto simp: read_n_def split: if_splits)

lemma unpack_uint_prefix:
  "unpack_uint n s = Inr (v, r) \<Longrightarrow> unpack_uint n (s @ e) = Inr (v, r @ e)"
  by (auto simp: unpack_uint_def split: sum.splits dest: read_n_prefix[where e = e])

lemma unpack_bin_prefix:
  "unpack_bin n s = Inr (v, r) \<Longrightarrow> unpack_bin n (s @ e) = Inr (v, r @ e)"
  by (auto simp: unpack_bin_def split: sum.splits dest: read_n_prefix[where e = e])

lemma unpack_str_prefix:
  "unpack_str n s = Inr (v, r) \<Longrightarrow> unpack_str n (s @ e) = Inr (v, r @ e)"
  by (auto simp: unpack_str_def split: sum.splits if_splits dest: read_n_prefix[where e = e])

lemma with_len_prefix:
  assumes "with_len k s g = Inr (v, r)"
    and "\<And>n t. g n t = Inr (v, r) \<Longrightarrow> g' n (t @ e) = Inr (v, r @ e)"
  shows "with_len k (s @ e) g' = Inr (v, r @ e)"
  using assms
  by (auto simp: with_len_def split: sum.splits dest: read_n_prefix[where e = e])

lemma items_prefix:
  assumes "(\<forall>s v r g e. toy_unpack_fuel f s = Inr (v, r) \<longrightarrow> f \<le> g \<longrightarrow>
        toy_unpack_fuel g (s @ e) = Inr (v, r @ e))" "f \<le> f'"
  shows "toy_unpack_items f n s = Inr (xs, r) \<Longrightarrow>
         toy_unpack_items f' n (s @ e) = Inr (xs, r @ e)"
proof (induction n arbitrary: s xs)
  case 0
  then show ?case by simp
next
  case (Suc n)
  from Suc.prems obtain x t ys where
    x: "toy_unpack_fuel f s = Inr (x, t)" and ys: "toy_unpack_items f n t = Inr (ys, r)"
    and xs: "xs = x # ys"
    by (auto split: sum.splits)
  from assms x have "toy_unpack_fuel f' (s @ e) = Inr (x, t @ e)"
    by blast
  with Suc.IH[OF ys] xs show ?case by simp
qed

lemma list_of_prefix:
  assumes "(\<forall>s v r g e. toy_unpack_fuel f s = Inr (v, r) \<longrightarrow> f \<le> g \<longrightarrow>
        toy_unpack_fuel g (s @ e) = Inr (v, r @ e))" "f \<le> f'"
    and "(case toy_unpack_items f n t of Inl x \<Rightarrow> Inl x | Inr (xs, t') \<Rightarrow> Inr (PyList xs, t'))
         = Inr (v, r)"
  shows "(case toy_unpack_items f' n (t @ e) of Inl x \<Rightarrow> Inl x
          | Inr (xs, t') \<Rightarrow> Inr (PyList xs, t')) = Inr (v, r @ e)"
  using assms(3) items_prefix[OF assms(1,2), of n t _ r e]
  by (auto split: sum.splits)

lemma fuel_prefix_all:
  "\<forall>s v r f' e. toy_unpack_fuel f s = Inr (v, r) \<longrightarrow> f \<le> f' \<longrightarrow>
        toy_unpack_fuel f' (s @ e) = Inr (v, r @ e)"
proof (induction f)
  case 0
  show ?case by simp
next
  case (Suc f)
  show ?case
  proof (intro allI impI)
    fix s v r f' e
    assume a: "toy_unpack_fuel (Suc f) s = Inr (v, r)" and le: "Suc f \<le> f'"
    then obtain f'' where f': "f' = Suc f''" and le': "f \<le> f''" by (cases f') auto
    from a obtain b s' where s: "s = b # s'" by (cases s) auto
    note lp = list_of_prefix[OF Suc le']
    have wl_list: "\<And>k. with_len k s' (\<lambda>n t. case toy_unpack_items f n t of Inl x \<Rightarrow> Inl x
                 | Inr (xs, t') \<Rightarrow> Inr (PyList xs, t')) = Inr (v, r) \<Longrightarrow>
          with_len k (s' @ e) (\<lambda>n t. case toy_unpack_items f'' n t of Inl x \<Rightarrow> Inl x
                 | Inr (xs, t') \<Rightarrow> Inr (PyList xs, t')) = Inr (v, r @ e)"
      by (erule with_len_prefix) (rule lp)
    have wl_bin: "\<And>k. with_len k s' unpack_bin = Inr (v, r) \<Longrightarrow>
          with_len k (s' @ e) unpack_bin = Inr (v, r @ e)"
      by (erule with_len_prefix) (rule unpack_bin_prefix)
    have wl_str: "\<And>k. with_len k s' unpack_str = Inr (v, r) \<Longrightarrow>
          with_len k (s' @ e) unpack_str = Inr (v, r @ e)"
      by (erule with_len_prefix) (rule unpack_str_prefix)
    from a show "toy_unpack_fuel f' (s @ e) = Inr (v, r @ e)"
      unfolding s f'
      by (auto simp: Let_def split: if_splits
          intro: lp wl_list wl_bin wl_str unpack_uint_prefix unpack_str_prefix)
  qed
qed

lemma toy_unpack_prefix: "unpack_prefix toy_libs"
  unfolding unpack_prefix_def
  using fuel_prefix_all
  by (auto simp: toy_libs_def toy_unpack_def)

section \<open>What encrypt writes and what decrypt reads back\<close>

lemma be_bytes_8:
  "be_bytes 8 v = map (\<lambda>k. of_nat (v div 256 ^ k)) [7, 6, 5, 4, 3, 2, 1, 0]"
proof -
  have e: "(8::nat) = Suc (Suc (Suc (Suc (Suc (Suc (Suc (Suc 0)))))))"
    by simp
  show ?thesis
    by (subst e) (simp add: be_bytes.simps div_mult2_eq[symmetric])
qed

lemma counter_be:
  assumes "0 \<le> i" "i < 2 ^ 64"
  shows "counter i = Inr (be_bytes 8 (nat i))"
proof -
  have w: "(of_nat (nat i div 256 ^ k) :: 8 word) = word_of_int (i div 256 ^ k)" for k :: nat
  proof -
    have "int (nat i div 256 ^ k) = i div 256 ^ k"
      using assms(1) by (simp add: zdiv_int)
    then show ?thesis
      by (metis of_int_of_nat_eq)
  qed
  have "counter i = Inr (map (\<lambda>k. word_of_int (i div 256 ^ k)) [7, 6, 5, 4, 3, 2, 1, 0])"
    using assms by (simp only: counter_def) simp
  also have "map (\<lambda>k. word_of_int (i div 256 ^ k) :: 8 word) [7, 6, 5, 4, 3, 2, 1, 0]
      = map (\<lambda>k. of_nat (nat i div 256 ^ k)) [7, 6, 5, 4, 3, 2, 1, 0::nat]"
    by (simp only: w)
  finally show ?thesis by (simp only: be_bytes_8)
qed

lemma counter_Inr:
  "counter i = Inr c \<longleftrightarrow> 0 \<le> i \<and> i < 2 ^ 64 \<and> c = be_bytes 8 (nat i)"
proof (cases "0 \<le> i \<and> i < 2 ^ 64")
  case True
  then show ?thesis using counter_be[of i] by auto
next
  case False
  then have "counter i = Inl OverflowError" by (simp only: counter_def if_False)
  with False show ?thesis by auto
qed

lemma counter_length: "counter i = Inr c \<Longrightarrow> length c = 8"
  by (simp add: counter_Inr)

lemma counter_value: "counter i = Inr c \<Longrightarrow> int (be_val c) = i"
proof -
  assume "counter i = Inr c"
  then have i: "0 \<le> i" "i < 2 ^ 64" and c: "c = be_bytes 8 (nat i)"
    by (simp_all add: counter_Inr)
  from i have "nat i < 256 ^ 8" by simp
  then have "be_val (be_bytes 8 (nat i)) = nat i" by (rule be_val_be_bytes)
  with i c show ?thesis by simp
qed

lemma counter_inj: "counter i = Inr c \<Longrightarrow> counter j = Inr c \<Longrightarrow> i = j"
  using counter_value[of i c] counter_value[of j c] by simp

lemma counter_0: "counter 0 = Inr (be_bytes 8 0)"
  using counter_be[of 0] by simp

lemma recipients_loop_shape:
  assumes "recipients_loop L sp ep kb hn rs pairs0 m0 = Inr (pairs, m)"
  shows "\<exists>boxes. pairs = pairs0 @ map (\<lambda>b. PyList [PyNone, PyBytes b]) boxes \<and>
           list_all2 (\<lambda>pk b. crypto_box L kb hn pk ep = Inr b) rs boxes \<and>
           (\<forall>pk \<in> set rs. \<exists>k. crypto_box_beforenm L (PyBytes pk) sp = Inr k \<and> m pk = Some k) \<and>
           (\<forall>pk. pk \<notin> set rs \<longrightarrow> m pk = m0 pk)"
  using assms
proof (induction rs arbitrary: pairs0 m0)
  case Nil
  then show ?case by simp
next
  case (Cons pk rs)
  from Cons.prems obtain box k where
    box: "crypto_box L kb hn pk ep = Inr box" and
    k: "crypto_box_beforenm L (PyBytes pk) sp = Inr k" and
    rest: "recipients_loop L sp ep kb hn rs (pairs0 @ [PyList [PyNone, PyBytes box]])
             (m0(pk \<mapsto> k)) = Inr (pairs, m)"
    by (auto split: sum.splits)
  from Cons.IH[OF rest] obtain boxes where
    b: "pairs = (pairs0 @ [PyList [PyNone, PyBytes box]]) @ map (\<lambda>b. PyList [PyNone, PyBytes b]) boxes"
      "list_all2 (\<lambda>pk b. crypto_box L kb hn pk ep = Inr b) rs boxes"
      "\<forall>pk \<in> set rs. \<exists>k. crypto_box_beforenm L (PyBytes pk) sp = Inr k \<and> m pk = Some k"
      "\<forall>pk'. pk' \<notin> set rs \<longrightarrow> m pk' = (m0(pk \<mapsto> k)) pk'"
    by blast
  have "\<exists>k. crypto_box_beforenm L (PyBytes pk) sp = Inr k \<and> m pk = Some k"
  proof (cases "pk \<in> set rs")
    case True
    with b(3) show ?thesis by blast
  next
    case False
    with b(4) k show ?thesis by simp
  qed
  with b box show ?case
    by (intro exI[of _ "box # boxes"]) auto
qed

lemma tag_boxes_loop_shape:
  assumes "tag_boxes_loop L m tag n rs tb0 = Inr tbs"
  shows "\<exists>new. tbs = tb0 @ new \<and>
           list_all2 (\<lambda>pk tb. \<exists>k. m pk = Some k \<and> crypto_box_afternm L tag n k = Inr tb) rs new"
  using assms
proof (induction rs arbitrary: tb0)
  case Nil
  then show ?case by simp
next
  case (Cons pk rs)
  from Cons.prems obtain k tb where
    k: "m pk = Some k" and tb: "crypto_box_afternm L tag n k = Inr tb" and
    rest: "tag_boxes_loop L m tag n rs (tb0 @ [tb]) = Inr tbs"
    by (auto split: option.splits sum.splits)
  from Cons.IH[OF rest] obtain new where
    "tbs = (tb0 @ [tb]) @ new"
    "list_all2 (\<lambda>pk tb. \<exists>k. m pk = Some k \<and> crypto_box_afternm L tag n k = Inr tb) rs new"
    by blast
  with k tb show ?case by (intro exI[of _ "tb # new"]) auto
qed

lemma payload_packet_shape:
  assumes "payload_packet L np key rs m j chunk = Inr packet"
  shows "\<exists>c ct tbs. counter (j + 2) = Inr c \<and>
           crypto_secretbox L chunk (np @ c) key = Inr ct \<and>
           list_all2 (\<lambda>pk tb. \<exists>k. m pk = Some k \<and>
                        crypto_box_afternm L (take 16 ct) (np @ c) k = Inr tb) rs tbs \<and>
           packet = PyList [PyList (map PyBytes tbs), PyBytes (drop 16 ct)]"
proof -
  from assms obtain c ct tbs where
    c: "counter (j + 2) = Inr c" and ct: "crypto_secretbox L chunk (np @ c) key = Inr ct" and
    tbs: "tag_boxes_loop L m (take 16 ct) (np @ c) rs [] = Inr tbs" and
    p: "packet = PyList [PyList (map PyBytes tbs), PyBytes (drop 16 ct)]"
    by (auto simp: payload_packet_def Let_def split: sum.splits)
  from tag_boxes_loop_shape[OF tbs] c ct p show ?thesis by auto
qed

lemma packets_loop_shape:
  assumes "packets_loop L np key rs m j chunks out0 = Inr out"
  shows "\<exists>pbs. out = out0 @ concat pbs \<and> length pbs = length chunks \<and>
           (\<forall>i < length chunks. \<exists>packet.
              payload_packet L np key rs m (j + int i) (chunks ! i) = Inr packet \<and>
              packb L packet = Inr (pbs ! i))"
  using assms
proof (induction chunks arbitrary: j out0)
  case Nil
  then show ?case by simp
next
  case (Cons chunk chunks)
  from Cons.prems obtain packet pb where
    p: "payload_packet L np key rs m j chunk = Inr packet" and pb: "packb L packet = Inr pb" and
    rest: "packets_loop L np key rs m (j + 1) chunks (out0 @ pb) = Inr out"
    by (auto split: sum.splits)
  from Cons.IH[OF rest] obtain pbs where
    pbs: "out = (out0 @ pb) @ concat pbs" "length pbs = length chunks"
      "\<forall>i < length chunks. \<exists>packet.
         payload_packet L np key rs m (j + 1 + int i) (chunks ! i) = Inr packet \<and>
         packb L packet = Inr (pbs ! i)"
    by blast
  have "\<forall>i < length (chunk # chunks). \<exists>packet.
          payload_packet L np key rs m (j + int i) ((chunk # chunks) ! i) = Inr packet \<and>
          packb L packet = Inr ((pb # pbs) ! i)"
  proof (intro allI impI)
    fix i assume i: "i < length (chunk # chunks)"
    show "\<exists>packet. payload_packet L np key rs m (j + int i) ((chunk # chunks) ! i) = Inr packet \<and>
          packb L packet = Inr ((pb # pbs) ! i)"
    proof (cases i)
      case 0
      with p pb show ?thesis by simp
    next
      case (Suc i')
      with i pbs(3) have "\<exists>packet.
         payload_packet L np key rs m (j + 1 + int i') (chunks ! i') = Inr packet \<and>
         packb L packet = Inr (pbs ! i')" by simp
      moreover have "j + 1 + int i' = j + int i" using Suc by simp
      ultimately show ?thesis using Suc by simp
    qed
  qed
  with pbs(1,2) show ?case by (intro exI[of _ "pb # pbs"]) simp
qed

lemma base_total:
  "nacl_laws L \<Longrightarrow> length sk = 32 \<Longrightarrow>
   \<exists>pk. crypto_scalarmult_base L sk = Inr pk \<and> length pk = 32"
  by (simp add: nacl_laws_def)

lemma beforenm_total:
  "nacl_laws L \<Longrightarrow> length pk = 32 \<Longrightarrow> length sk = 32 \<Longrightarrow>
   \<exists>k. crypto_box_beforenm L (PyBytes pk) sk = Inr k \<and> length k = 32"
  by (simp add: nacl_laws_def)

lemma beforenm_length:
  "nacl_laws L \<Longrightarrow> length pk = 32 \<Longrightarrow> length sk = 32 \<Longrightarrow>
   crypto_box_beforenm L (PyBytes pk) sk = Inr k \<Longrightarrow> length k = 32"
  using beforenm_total[of L pk sk] by auto

lemma beforenm_sym:
  "nacl_laws L \<Longrightarrow> length a = 32 \<Longrightarrow> length b = 32 \<Longrightarrow>
   crypto_scalarmult_base L a = Inr A \<Longrightarrow> crypto_scalarmult_base L b = Inr B \<Longrightarrow>
   crypto_box_beforenm L (PyBytes A) b = crypto_box_beforenm L (PyBytes B) a"
  unfolding nacl_laws_def by (elim conjE) (erule allE[of _ a], erule allE[of _ b], blast)

lemma box_is_afternm:
  "nacl_laws L \<Longrightarrow> length n = 24 \<Longrightarrow> crypto_box_beforenm L (PyBytes pk) sk = Inr k \<Longrightarrow>
   crypto_box L m n pk sk = crypto_box_afternm L m n k"
  unfolding nacl_laws_def by blast

lemma afternm_total:
  "nacl_laws L \<Longrightarrow> length n = 24 \<Longrightarrow> length k = 32 \<Longrightarrow> \<exists>c. crypto_box_afternm L m n k = Inr c"
  unfolding nacl_laws_def by blast

lemma open_afternm:
  "nacl_laws L \<Longrightarrow> crypto_box_afternm L m n k = Inr c \<Longrightarrow>
   crypto_box_open_afternm L (PyBytes c) n k = Inr m"
  unfolding nacl_laws_def by blast

lemma secretbox_total:
  "nacl_laws L \<Longrightarrow> length n = 24 \<Longrightarrow> length k = 32 \<Longrightarrow> \<exists>c. crypto_secretbox L m n k = Inr c"
  unfolding nacl_laws_def by blast

lemma secretbox_open:
  "nacl_laws L \<Longrightarrow> crypto_secretbox L m n k = Inr c \<Longrightarrow>
   crypto_secretbox_open L c n (PyBytes k) = Inr m"
  unfolding nacl_laws_def by blast

lemma sha512_length: "nacl_laws L \<Longrightarrow> length (sha512 L x) = 64"
  unfolding nacl_laws_def by blast

lemma open_wrong_key:
  "ideal_boxes L \<Longrightarrow> crypto_box_afternm L m n k = Inr c \<Longrightarrow> length k' = 32 \<Longrightarrow> k' \<noteq> k \<Longrightarrow>
   crypto_box_open_afternm L (PyBytes c) n k' = Inl CryptoError"
  unfolding ideal_boxes_def by blast

lemma same_secret_everywhere:
  "ideal_boxes L \<Longrightarrow> length b = 32 \<Longrightarrow>
   crypto_box_beforenm L (PyBytes pk) a = Inr k \<Longrightarrow>
   crypto_box_beforenm L (PyBytes pk') a = Inr k \<Longrightarrow>
   crypto_box_beforenm L (PyBytes pk) b = crypto_box_beforenm L (PyBytes pk') b"
  unfolding ideal_boxes_def by blast

lemma unpack_packb:
  "umsgpack_laws L \<Longrightarrow> packb L v = Inr b \<Longrightarrow> unpack L (b @ rest) = Inr (v, rest)"
  unfolding umsgpack_laws_def by blast

lemma unpackb_packb:
  "umsgpack_laws L \<Longrightarrow> packb L v = Inr b \<Longrightarrow> unpackb L b = Inr v"
  unfolding umsgpack_laws_def by blast

lemma unpack2_list [simp]: "unpack2 (PyList [a, b]) = Inr (a, b)"
  by (simp add: unpack2_def)

lemma decrypt_packet_roundtrip:
  assumes L: "nacl_laws L" "umsgpack_laws L"
    and p: "payload_packet L np key rs m j c = Inr packet"
    and pb: "packb L packet = Inr pb"
    and idx: "idx < length rs" "m (rs ! idx) = Some k"
  shows "decrypt_packet L np k (PyBytes key) idx (pb @ rest) (j + 2) = Inr (c, rest)"
proof -
  from payload_packet_shape[OF p] obtain cj ct tbs where
    cj: "counter (j + 2) = Inr cj" and
    ct: "crypto_secretbox L c (np @ cj) key = Inr ct" and
    tbs: "list_all2 (\<lambda>pk tb. \<exists>k. m pk = Some k \<and>
            crypto_box_afternm L (take 16 ct) (np @ cj) k = Inr tb) rs tbs" and
    packet: "packet = PyList [PyList (map PyBytes tbs), PyBytes (drop 16 ct)]"
    by blast
  from tbs have len: "length tbs = length rs" by (simp add: list_all2_lengthD)
  from list_all2_nthD[OF tbs idx(1)] idx(2)
  have "crypto_box_afternm L (take 16 ct) (np @ cj) k = Inr (tbs ! idx)" by simp
  from open_afternm[OF L(1) this]
  have op: "crypto_box_open_afternm L (PyBytes (tbs ! idx)) (np @ cj) k = Inr (take 16 ct)" .
  have un: "unpack L (pb @ rest) = Inr (packet, rest)"
    by (rule unpack_packb[OF L(2) pb])
  have so: "crypto_secretbox_open L ct (np @ cj) (PyBytes key) = Inr c"
    by (rule secretbox_open[OF L(1) ct])
  show ?thesis
    using cj un op so idx(1) len
    by (simp add: decrypt_packet_def packet)
qed

lemma loop_roundtrip:
  assumes L: "nacl_laws L" "umsgpack_laws L"
    and idx: "idx < length rs" "m (rs ! idx) = Some k"
  shows "packets_loop L np key rs m j chunks out0 = Inr out \<Longrightarrow>
         chunks \<noteq> [] \<Longrightarrow> last chunks = [] \<Longrightarrow> \<forall>c \<in> set (butlast chunks). c \<noteq> [] \<Longrightarrow>
         \<exists>bs. out = out0 @ bs \<and>
           (\<forall>extra acc. decrypt_loop L np k (PyBytes key) idx (bs @ extra) (j + 2) acc =
              Some (Inr (acc @ concat chunks)))"
proof (induction chunks arbitrary: j out0)
  case Nil
  then show ?case by simp
next
  case (Cons c chunks)
  from Cons.prems(1) obtain packet pb where
    p: "payload_packet L np key rs m j c = Inr packet" and pb: "packb L packet = Inr pb" and
    rest: "packets_loop L np key rs m (j + 1) chunks (out0 @ pb) = Inr out"
    by (auto split: sum.splits)
  note dp = decrypt_packet_roundtrip[OF L p pb idx]
  show ?case
  proof (cases "chunks = []")
    case True
    with Cons.prems have c: "c = []" by simp
    from True rest have out: "out = out0 @ pb" by simp
    have "decrypt_loop L np k (PyBytes key) idx (pb @ extra) (j + 2) acc =
            Some (Inr (acc @ concat (c # chunks)))" for extra acc
      by (subst decrypt_loop.simps) (simp add: dp c True)
    with out show ?thesis by blast
  next
    case False
    with Cons.prems have c: "c \<noteq> []" and l: "last chunks = []"
      and b: "\<forall>c \<in> set (butlast chunks). c \<noteq> []" by auto
    from Cons.IH[OF rest False l b] obtain bs where
      bs: "out = (out0 @ pb) @ bs"
        "\<forall>extra acc. decrypt_loop L np k (PyBytes key) idx (bs @ extra) (j + 1 + 2) acc =
              Some (Inr (acc @ concat chunks))"
      by blast
    have "decrypt_loop L np k (PyBytes key) idx ((pb @ bs) @ extra) (j + 2) acc =
            Some (Inr (acc @ concat (c # chunks)))" for extra acc
    proof -
      have "decrypt_loop L np k (PyBytes key) idx (pb @ bs @ extra) (j + 2) acc =
            decrypt_loop L np k (PyBytes key) idx (bs @ extra) (j + 2 + 1) (acc @ c)"
        by (subst decrypt_loop.simps) (simp add: dp c)
      also have "j + 2 + 1 = j + 1 + 2" by simp
      finally show ?thesis using bs(2) by simp
    qed
    with bs(1) show ?thesis by (intro exI[of _ "pb @ bs"]) simp
  qed
qed

lemma find_recipient_roundtrip:
  assumes L: "nacl_laws L" "ideal_boxes L"
    and c0: "counter 0 = Inr c0" and n: "length (np @ c0) = 24"
    and ep: "length ep = 32" and ke: "length ke = 32"
  shows "list_all2 (\<lambda>pk b. crypto_box L kb (np @ c0) pk ep = Inr b) rs boxes \<Longrightarrow>
         \<forall>pk \<in> set rs. length pk = 32 \<Longrightarrow>
         pk_r \<in> set rs \<Longrightarrow> crypto_box_beforenm L (PyBytes pk_r) ep = Inr ke \<Longrightarrow>
         \<exists>i < length rs.
           find_recipient L np ke idx (map (\<lambda>b. PyList [PyNone, PyBytes b]) boxes) =
             Inr (idx + i, kb) \<and>
           crypto_box_beforenm L (PyBytes (rs ! i)) ep = Inr ke"
proof (induction rs arbitrary: boxes idx)
  case Nil
  then show ?case by simp
next
  case (Cons pk rs)
  from Cons.prems(1) obtain box boxes' where
    boxes: "boxes = box # boxes'" and box: "crypto_box L kb (np @ c0) pk ep = Inr box" and
    rest: "list_all2 (\<lambda>pk b. crypto_box L kb (np @ c0) pk ep = Inr b) rs boxes'"
    by (auto simp: list_all2_Cons1)
  from Cons.prems(2) have lpk: "length pk = 32" by simp
  from beforenm_total[OF L(1) lpk ep] obtain k where
    k: "crypto_box_beforenm L (PyBytes pk) ep = Inr k" "length k = 32" by blast
  from box box_is_afternm[OF L(1) n k(1)]
  have seal: "crypto_box_afternm L kb (np @ c0) k = Inr box" by simp
  show ?case
  proof (cases "k = ke")
    case True
    from open_afternm[OF L(1) seal] True
    have "crypto_box_open_afternm L (PyBytes box) (np @ c0) ke = Inr kb" by simp
    then have "find_recipient L np ke idx (map (\<lambda>b. PyList [PyNone, PyBytes b]) boxes) =
                 Inr (idx + 0, kb)"
      by (simp add: boxes c0)
    with k(1) True show ?thesis by (intro exI[of _ 0]) simp
  next
    case False
    from open_wrong_key[OF L(2) seal ke] False
    have fail: "crypto_box_open_afternm L (PyBytes box) (np @ c0) ke = Inl CryptoError" by blast
    from False k(1) Cons.prems(4) have "pk_r \<noteq> pk" by auto
    with Cons.prems(3) have mem: "pk_r \<in> set rs" by simp
    from Cons.prems(2) have "\<forall>pk \<in> set rs. length pk = 32" by simp
    from Cons.IH[OF rest this mem Cons.prems(4), of "Suc idx"] obtain i where
      i: "i < length rs"
        "find_recipient L np ke (Suc idx) (map (\<lambda>b. PyList [PyNone, PyBytes b]) boxes') =
           Inr (Suc idx + i, kb)"
        "crypto_box_beforenm L (PyBytes (rs ! i)) ep = Inr ke"
      by blast
    from fail i(2) have
      "find_recipient L np ke idx (map (\<lambda>b. PyList [PyNone, PyBytes b]) boxes) =
         Inr (idx + Suc i, kb)"
      by (simp add: boxes c0)
    with i(1,3) show ?thesis by (intro exI[of _ "Suc i"]) simp
  qed
qed

lemma encrypt_Inr:
  assumes "encrypt L ep key sp rs message cs = Some (Inr out)"
  obtains sender_public ephemeral_public keys_bytes c0 pairs m hdr chunks where
    "crypto_scalarmult_base L sp = Inr sender_public"
    "crypto_scalarmult_base L ep = Inr ephemeral_public"
    "packb L (PyList [PyBytes sender_public, PyBytes key]) = Inr keys_bytes"
    "counter 0 = Inr c0"
    "recipients_loop L sp ep keys_bytes
       (take 16 (sha512 L (nonce_prefix_const @ ephemeral_public)) @ c0) rs [] Map.empty =
       Inr (pairs, m)"
    "packb L (PyList [PyStr ''SaltBox'', PyList [PyInt 1, PyInt 0], PyInt 0,
                      PyBytes ephemeral_public, PyList pairs]) = Inr hdr"
    "chunks_with_empty message cs = Some chunks"
    "packets_loop L (take 16 (sha512 L (nonce_prefix_const @ ephemeral_public))) key rs m 0
       chunks hdr = Inr out"
  using assms
  by (auto simp: encrypt_def Let_def split: sum.splits option.splits prod.splits)

lemma chunks_with_empty_Some:
  assumes "1 \<le> chunk_size"
  shows "\<exists>cks. chunks_with_empty message chunk_size = Some (cks @ [[]]) \<and>
           concat cks = message \<and> (\<forall>c \<in> set cks. c \<noteq> [] \<and> int (length c) \<le> chunk_size)"
  using chunks_loop_terminates[OF assms, of 0 message "[]"]
  by (auto simp: chunks_with_empty_def)

lemma length_nonempty_chunks: "\<forall>c \<in> set cks. c \<noteq> [] \<Longrightarrow> length cks \<le> length (concat cks)"
proof (induction cks)
  case Nil
  then show ?case by simp
next
  case (Cons c cks)
  then show ?case by (cases c) auto
qed

lemma nonce_length:
  "nacl_laws L \<Longrightarrow> counter i = Inr c \<Longrightarrow> length (take 16 (sha512 L x) @ c) = 24"
  by (simp add: sha512_length counter_length)

lemma recipients_loop_total:
  assumes L: "nacl_laws L" and n: "length hn = 24" and lens: "length sp = 32" "length ep = 32"
  shows "\<forall>pk \<in> set rs. length pk = 32 \<Longrightarrow>
         \<exists>pairs m. recipients_loop L sp ep kb hn rs pairs0 m0 = Inr (pairs, m)"
proof (induction rs arbitrary: pairs0 m0)
  case Nil
  then show ?case by simp
next
  case (Cons pk rs)
  then have lpk: "length pk = 32" by simp
  from beforenm_total[OF L lpk lens(2)] obtain k where
    k: "crypto_box_beforenm L (PyBytes pk) ep = Inr k" "length k = 32" by blast
  from afternm_total[OF L n k(2), of kb] box_is_afternm[OF L n k(1), of kb]
  obtain box where box: "crypto_box L kb hn pk ep = Inr box" by auto
  from beforenm_total[OF L lpk lens(1)] obtain k' where
    k': "crypto_box_beforenm L (PyBytes pk) sp = Inr k'" by blast
  from Cons have "\<forall>pk \<in> set rs. length pk = 32" by simp
  from Cons.IH[OF this] box k' show ?case by simp
qed

lemma tag_boxes_loop_total:
  assumes L: "nacl_laws L" and n: "length n = 24"
  shows "\<forall>pk \<in> set rs. \<exists>k. m pk = Some k \<and> length k = 32 \<Longrightarrow>
         \<exists>tbs. tag_boxes_loop L m tag n rs tb0 = Inr tbs"
proof (induction rs arbitrary: tb0)
  case Nil
  then show ?case by simp
next
  case (Cons pk rs)
  then obtain k where k: "m pk = Some k" "length k = 32" by auto
  from afternm_total[OF L n k(2), of tag] obtain tb where
    tb: "crypto_box_afternm L tag n k = Inr tb" by blast
  from Cons have "\<forall>pk \<in> set rs. \<exists>k. m pk = Some k \<and> length k = 32" by simp
  from Cons.IH[OF this] k tb show ?case by simp
qed

lemma payload_packet_total:
  assumes L: "nacl_laws L" and j: "0 \<le> j" "j + 2 < 2 ^ 64"
    and key: "length key = 32"
    and m: "\<forall>pk \<in> set rs. \<exists>k. m pk = Some k \<and> length k = 32"
  shows "\<exists>packet. payload_packet L (take 16 (sha512 L x)) key rs m j chunk = Inr packet"
proof -
  from j obtain c where c: "counter (j + 2) = Inr c"
    by (auto simp: counter_Inr)
  have n: "length (take 16 (sha512 L x) @ c) = 24" by (rule nonce_length[OF L c])
  from secretbox_total[OF L n key] obtain ct where
    ct: "crypto_secretbox L chunk (take 16 (sha512 L x) @ c) key = Inr ct" by blast
  from tag_boxes_loop_total[OF L n m] obtain tbs where
    "tag_boxes_loop L m (take 16 ct) (take 16 (sha512 L x) @ c) rs [] = Inr tbs" by blast
  with c ct show ?thesis by (simp add: payload_packet_def)
qed

lemma packets_loop_outcome:
  assumes L: "nacl_laws L" and key: "length key = 32"
    and m: "\<forall>pk \<in> set rs. \<exists>k. m pk = Some k \<and> length k = 32"
  shows "0 \<le> j \<Longrightarrow> j + int (length chunks) + 1 < 2 ^ 64 \<Longrightarrow>
         (\<exists>out. packets_loop L (take 16 (sha512 L x)) key rs m j chunks out0 = Inr out) \<or>
         (\<exists>e v. packets_loop L (take 16 (sha512 L x)) key rs m j chunks out0 = Inl e \<and>
                packb L v = Inl e)"
proof (induction chunks arbitrary: j out0)
  case Nil
  then show ?case by simp
next
  case (Cons chunk chunks)
  then have j: "0 \<le> j" "j + 2 < 2 ^ 64" by auto
  from payload_packet_total[OF L j key m] obtain packet where
    p: "payload_packet L (take 16 (sha512 L x)) key rs m j chunk = Inr packet" by blast
  show ?case
  proof (cases "packb L packet")
    case (Inl e)
    with p show ?thesis by auto
  next
    case (Inr pb)
    from Cons.prems have "0 \<le> j + 1" "j + 1 + int (length chunks) + 1 < 2 ^ 64" by auto
    from Cons.IH[OF this] p Inr show ?thesis by simp
  qed
qed

lemma encrypt_outcome:
  assumes L: "nacl_laws L"
    and lens: "length ep = 32" "length key = 32" "length sp = 32" "\<forall>pk \<in> set rs. length pk = 32"
    and cs: "1 \<le> cs" and msg: "int (length message) < 2 ^ 63"
  shows "\<exists>r. encrypt L ep key sp rs message cs = Some r \<and>
           (\<forall>e. r = Inl e \<longrightarrow> (\<exists>v. packb L v = Inl e))"
proof -
  from base_total[OF L lens(3)] obtain sender_public where
    spub: "crypto_scalarmult_base L sp = Inr sender_public" by blast
  from base_total[OF L lens(1)] obtain ephemeral_public where
    epub: "crypto_scalarmult_base L ep = Inr ephemeral_public" by blast
  define np where "np = take 16 (sha512 L (nonce_prefix_const @ ephemeral_public))"
  have c0: "counter 0 = Inr (be_bytes 8 0)" by (rule counter_0)
  show ?thesis
  proof (cases "packb L (PyList [PyBytes sender_public, PyBytes key])")
    case (Inl e)
    with spub epub show ?thesis by (auto simp: encrypt_def)
  next
    case (Inr keys_bytes)
    have n0: "length (np @ be_bytes 8 0) = 24"
      unfolding np_def by (rule nonce_length[OF L c0])
    from recipients_loop_total[OF L n0 lens(3) lens(1) lens(4), of keys_bytes "[]" Map.empty]
    obtain pairs m where
      rl: "recipients_loop L sp ep keys_bytes (np @ be_bytes 8 0) rs [] Map.empty = Inr (pairs, m)"
      by blast
    from recipients_loop_shape[OF rl] have
      "\<forall>pk \<in> set rs. \<exists>k. crypto_box_beforenm L (PyBytes pk) sp = Inr k \<and> m pk = Some k"
      by blast
    with lens have m: "\<forall>pk \<in> set rs. \<exists>k. m pk = Some k \<and> length k = 32"
      using beforenm_length[OF L] by metis
    show ?thesis
    proof (cases "packb L (PyList [PyStr ''SaltBox'', PyList [PyInt 1, PyInt 0], PyInt 0,
                      PyBytes ephemeral_public, PyList pairs])")
      case (Inl e)
      with spub epub Inr c0 rl show ?thesis
        by (auto simp: encrypt_def np_def[symmetric])
    next
      case hdr: (Inr hdr)
      from chunks_with_empty_Some[OF cs, of message] obtain cks where
        cks: "chunks_with_empty message cs = Some (cks @ [[]])" "concat cks = message"
          "\<forall>c \<in> set cks. c \<noteq> []"
        by auto
      from length_nonempty_chunks[OF cks(3)] cks(2) msg
      have "0 + int (length (cks @ [[]])) + 1 < 2 ^ 64" by simp
      from packets_loop_outcome[OF L lens(2) m _ this, of "nonce_prefix_const @ ephemeral_public" hdr]
      have "(\<exists>out. packets_loop L np key rs m 0 (cks @ [[]]) hdr = Inr out) \<or>
         (\<exists>e v. packets_loop L np key rs m 0 (cks @ [[]]) hdr = Inl e \<and> packb L v = Inl e)"
        unfolding np_def by simp
      with spub epub Inr c0 rl hdr cks(1) show ?thesis
        by (auto simp: encrypt_def np_def[symmetric])
    qed
  qed
qed


section \<open>The decoder on arbitrary input\<close>

lemma find_recipient_slot_box:
  "map slot_box ps = map slot_box ps' \<Longrightarrow>
   find_recipient L np k idx ps = find_recipient L np k idx ps'"
proof (induction ps arbitrary: ps' idx)
  case Nil
  then show ?case by simp
next
  case (Cons p ps)
  then obtain p' ps'' where ps': "ps' = p' # ps''" and p: "slot_box p = slot_box p'"
    and rest: "map slot_box ps = map slot_box ps''"
    by (cases ps') auto
  from Cons.IH[OF rest] have
    ih: "find_recipient L np k (Suc idx) ps = find_recipient L np k (Suc idx) ps''" .
  from p show ?case
    unfolding ps'
    by (auto simp: slot_box_def ih split: sum.splits prod.splits)
qed

lemma decrypt_header_fields:
  assumes "unpack L input =
             Inr (PyList [format_name, version, mode, ephemeral_public, recipient_pairs], stream)"
    and "unpack L input' =
             Inr (PyList [format_name', version', mode', ephemeral_public, recipient_pairs], stream)"
    and "unpack2 version = Inr (major, minor)" "unpack2 version' = Inr (major', minor')"
  shows "decrypt L input rp = decrypt L input' rp"
  by (simp add: decrypt_def assms)

lemma decrypt_bad_version:
  assumes "unpack L input =
             Inr (PyList [format_name, version, mode, ephemeral_public, recipient_pairs], stream)"
    and "unpack2 version = Inl e"
  shows "decrypt L input rp = Some (Inl e)"
  by (simp add: decrypt_def assms)

lemma unpack2_errors: "unpack2 v = Inl e \<Longrightarrow> e = TypeError \<or> e = ValueError"
  by (cases v) (auto simp: unpack2_def split: list.splits)

lemma unpack_prefixD:
  "unpack_prefix L \<Longrightarrow> unpack L s = Inr (v, rest) \<Longrightarrow>
   unpack L (s @ extra) = Inr (v, rest @ extra)"
  unfolding unpack_prefix_def by blast

lemma decrypt_packet_prefix:
  assumes "unpack_prefix L"
    and "decrypt_packet L np sb key idx stream pn = Inr (chunk, stream')"
  shows "decrypt_packet L np sb key idx (stream @ extra) pn = Inr (chunk, stream' @ extra)"
proof -
  from assms(2) obtain c packet where
    c: "counter pn = Inr c" and un: "unpack L stream = Inr (packet, stream')"
    by (auto simp: decrypt_packet_def Let_def split: sum.splits prod.splits)
  from unpack_prefixD[OF assms(1) un]
  have "unpack L (stream @ extra) = Inr (packet, stream' @ extra)" .
  with assms(2) c un show ?thesis
    by (auto simp: decrypt_packet_def Let_def split: sum.splits prod.splits)
qed

lemma decrypt_loop_prefix_aux:
  assumes "decrypt_loop L np sb key idx stream pn out = Some r"
  shows "unpack_prefix L \<longrightarrow> (\<forall>p. r = Inr p \<longrightarrow>
           decrypt_loop L np sb key idx (stream @ extra) pn out = Some (Inr p))"
proof (rule decrypt_loop.raw_induct
    [where P = "\<lambda>L np sb key idx stream pn out r. unpack_prefix L \<longrightarrow>
       (\<forall>p. r = Inr p \<longrightarrow> decrypt_loop L np sb key idx (stream @ extra) pn out = Some (Inr p))",
     OF _ assms], goal_cases)
  case (1 f L np sb key idx stream pn out r)
  show ?case
  proof (intro impI allI)
    fix p assume P: "unpack_prefix L" and r: "r = Inr p"
    from 1(2) r obtain chunk stream' where
      dp: "decrypt_packet L np sb key idx stream pn = Inr (chunk, stream')"
      by (auto split: sum.splits prod.splits)
    note dp' = decrypt_packet_prefix[OF P dp, of extra]
    show "decrypt_loop L np sb key idx (stream @ extra) pn out = Some (Inr p)"
    proof (cases "chunk = []")
      case True
      with 1(2) r dp have "p = out @ chunk" by simp
      with True dp' show ?thesis
        by (subst decrypt_loop.simps) simp
    next
      case False
      with 1(2) r dp have "f L np sb key idx stream' (pn + 1) (out @ chunk) = Some (Inr p)"
        by simp
      from 1(1)[OF this] P have
        "decrypt_loop L np sb key idx (stream' @ extra) (pn + 1) (out @ chunk) = Some (Inr p)"
        by simp
      with False dp' show ?thesis
        by (subst decrypt_loop.simps) simp
    qed
  qed
qed

lemma decrypt_loop_prefix:
  assumes "unpack_prefix L"
    and "decrypt_loop L np sb key idx stream pn out = Some (Inr p)"
  shows "decrypt_loop L np sb key idx (stream @ extra) pn out = Some (Inr p)"
  using decrypt_loop_prefix_aux[OF assms(2), of extra] assms(1) by simp

lemma unpack_eofD: "unpack_eof L \<Longrightarrow> unpack L [] = Inl InsufficientDataException"
  by (simp add: unpack_eof_def)

lemma decrypt_loop_eof:
  assumes "unpack_eof L" "counter pn = Inr c"
  shows "decrypt_loop L np sb key idx [] pn out = Some (Inl InsufficientDataException)"
  by (subst decrypt_loop.simps) (simp add: decrypt_packet_def assms unpack_eofD)

lemma loop_truncated:
  assumes L: "nacl_laws L" "umsgpack_laws L" "unpack_eof L"
    and idx: "idx < length rs" "m (rs ! idx) = Some k"
  shows "packets_loop L np key rs m j chunks out0 = Inr out \<Longrightarrow>
         chunks \<noteq> [] \<Longrightarrow> \<forall>c \<in> set (butlast chunks). c \<noteq> [] \<Longrightarrow>
         \<exists>pbs. out = out0 @ concat pbs \<and> length pbs = length chunks \<and>
           (\<forall>pb \<in> set pbs. \<exists>packet. packb L packet = Inr pb) \<and>
           (\<forall>acc. decrypt_loop L np k (PyBytes key) idx (concat (butlast pbs)) (j + 2) acc =
              Some (Inl InsufficientDataException))"
proof (induction chunks arbitrary: j out0)
  case Nil
  then show ?case by simp
next
  case (Cons c chunks)
  from Cons.prems(1) obtain packet pb where
    p: "payload_packet L np key rs m j c = Inr packet" and pb: "packb L packet = Inr pb" and
    rest: "packets_loop L np key rs m (j + 1) chunks (out0 @ pb) = Inr out"
    by (auto split: sum.splits)
  show ?case
  proof (cases "chunks = []")
    case True
    from payload_packet_shape[OF p] obtain cj where cj: "counter (j + 2) = Inr cj" by blast
    from True rest have "out = out0 @ concat [pb]" by simp
    moreover have "decrypt_loop L np k (PyBytes key) idx (concat (butlast [pb])) (j + 2) acc =
              Some (Inl InsufficientDataException)" for acc
      using decrypt_loop_eof[OF L(3) cj] by simp
    ultimately show ?thesis using True pb by (intro exI[of _ "[pb]"]) auto
  next
    case False
    with Cons.prems have c: "c \<noteq> []" and b: "\<forall>c \<in> set (butlast chunks). c \<noteq> []" by auto
    from Cons.IH[OF rest False b] obtain pbs where
      pbs: "out = (out0 @ pb) @ concat pbs" "length pbs = length chunks"
        "\<forall>pb \<in> set pbs. \<exists>packet. packb L packet = Inr pb"
        "\<forall>acc. decrypt_loop L np k (PyBytes key) idx (concat (butlast pbs)) (j + 1 + 2) acc =
              Some (Inl InsufficientDataException)"
      by blast
    from pbs(2) False have ne: "pbs \<noteq> []" by auto
    note dp = decrypt_packet_roundtrip[OF L(1,2) p pb idx, of "concat (butlast pbs)"]
    have "decrypt_loop L np k (PyBytes key) idx (concat (butlast (pb # pbs))) (j + 2) acc =
              Some (Inl InsufficientDataException)" for acc
    proof -
      have "decrypt_loop L np k (PyBytes key) idx (pb @ concat (butlast pbs)) (j + 2) acc =
            decrypt_loop L np k (PyBytes key) idx (concat (butlast pbs)) (j + 2 + 1) (acc @ c)"
        by (subst decrypt_loop.simps) (simp add: dp c)
      also have "j + 2 + 1 = j + 1 + 2" by simp
      finally show ?thesis using pbs(4) ne by simp
    qed
    with pbs(1,2,3) pb show ?thesis by (intro exI[of _ "pb # pbs"]) auto
  qed
qed

lemma py_getitem_errors: "py_getitem v i = Inl e \<Longrightarrow> e = IndexError \<or> e = TypeError"
  by (cases v) (auto split: if_splits)

lemma decrypt_after_encrypt:
  assumes L: "nacl_laws L" "ideal_boxes L" "umsgpack_laws L"
    and lens: "length ep = 32" "length sp = 32" "length rp = 32" "\<forall>pk \<in> set rs. length pk = 32"
    and rp: "crypto_scalarmult_base L rp = Inr pk_r" "pk_r \<in> set rs"
    and enc: "encrypt L ep key sp rs message cs = Some (Inr ct)"
  obtains chunks np m hdr i k where
    "chunks_with_empty message cs = Some chunks"
    "packets_loop L np key rs m 0 chunks hdr = Inr ct"
    "i < length rs" "m (rs ! i) = Some k"
    "\<And>stream. decrypt L (hdr @ stream) rp = decrypt_loop L np k (PyBytes key) i stream 2 []"
proof -
  from enc obtain sender_public ephemeral_public keys_bytes c0 pairs m hdr chunks where
    spub: "crypto_scalarmult_base L sp = Inr sender_public" and
    epub: "crypto_scalarmult_base L ep = Inr ephemeral_public" and
    kb: "packb L (PyList [PyBytes sender_public, PyBytes key]) = Inr keys_bytes" and
    c0: "counter 0 = Inr c0" and
    rl: "recipients_loop L sp ep keys_bytes
       (take 16 (sha512 L (nonce_prefix_const @ ephemeral_public)) @ c0) rs [] Map.empty =
       Inr (pairs, m)" and
    hdr: "packb L (PyList [PyStr ''SaltBox'', PyList [PyInt 1, PyInt 0], PyInt 0,
                      PyBytes ephemeral_public, PyList pairs]) = Inr hdr" and
    ch: "chunks_with_empty message cs = Some chunks" and
    pl: "packets_loop L (take 16 (sha512 L (nonce_prefix_const @ ephemeral_public))) key rs m 0
       chunks hdr = Inr ct"
    by (rule encrypt_Inr)
  define np where "np = take 16 (sha512 L (nonce_prefix_const @ ephemeral_public))"
  note rl = rl[folded np_def] and pl = pl[folded np_def]
  have n0: "length (np @ c0) = 24"
    unfolding np_def by (rule nonce_length[OF L(1) c0])
  from recipients_loop_shape[OF rl] obtain boxes where
    pairs: "pairs = map (\<lambda>b. PyList [PyNone, PyBytes b]) boxes" and
    boxes: "list_all2 (\<lambda>pk b. crypto_box L keys_bytes (np @ c0) pk ep = Inr b) rs boxes" and
    m: "\<forall>pk \<in> set rs. \<exists>k. crypto_box_beforenm L (PyBytes pk) sp = Inr k \<and> m pk = Some k"
    by auto
  have lpkr: "length pk_r = 32" using lens(4) rp(2) by blast
  from beforenm_total[OF L(1) lpkr lens(1)] obtain ke where
    ke: "crypto_box_beforenm L (PyBytes pk_r) ep = Inr ke" "length ke = 32" by blast
  have eb: "crypto_box_beforenm L (PyBytes ephemeral_public) rp = Inr ke"
    using beforenm_sym[OF L(1) lens(3) lens(1) rp(1) epub] ke(1) by simp
  from find_recipient_roundtrip[OF L(1,2) c0 n0 lens(1) ke(2) boxes lens(4) rp(2) ke(1), of 0]
  obtain i where i: "i < length rs"
    "find_recipient L np ke 0 pairs = Inr (i, keys_bytes)"
    "crypto_box_beforenm L (PyBytes (rs ! i)) ep = Inr ke"
    unfolding pairs by auto
  have ub: "unpackb L keys_bytes = Inr (PyList [PyBytes sender_public, PyBytes key])"
    by (rule unpackb_packb[OF L(3) kb])
  from i(1) m obtain k where
    k: "crypto_box_beforenm L (PyBytes (rs ! i)) sp = Inr k" "m (rs ! i) = Some k"
    by (meson nth_mem)
  have "crypto_box_beforenm L (PyBytes (rs ! i)) sp = crypto_box_beforenm L (PyBytes pk_r) sp"
    by (rule same_secret_everywhere[OF L(2) lens(2) i(3) ke(1)])
  also have "\<dots> = crypto_box_beforenm L (PyBytes sender_public) rp"
    by (rule beforenm_sym[OF L(1) lens(3) lens(2) rp(1) spub])
  finally have sb: "crypto_box_beforenm L (PyBytes sender_public) rp = Inr k"
    using k(1) by simp
  have "decrypt L (hdr @ stream) rp = decrypt_loop L np k (PyBytes key) i stream 2 []" for stream
    unfolding decrypt_def
    by (simp add: unpack_packb[OF L(3) hdr] eb i(2) ub sb np_def[symmetric])
  with ch pl i(1) k(2) show ?thesis by (rule that)
qed

lemma roundtrip_core:
  assumes L: "nacl_laws L" "ideal_boxes L" "umsgpack_laws L"
    and lens: "length ep = 32" "length sp = 32" "length rp = 32" "\<forall>pk \<in> set rs. length pk = 32"
    and cs: "1 \<le> cs"
    and rp: "crypto_scalarmult_base L rp = Inr pk_r" "pk_r \<in> set rs"
    and enc: "encrypt L ep key sp rs message cs = Some (Inr ct)"
  shows "decrypt L ct rp = Some (Inr message)"
proof (rule decrypt_after_encrypt[OF L lens rp enc])
  fix chunks np m hdr i k
  assume ch: "chunks_with_empty message cs = Some chunks"
    and pl: "packets_loop L np key rs m 0 chunks hdr = Inr ct"
    and i: "i < length rs" "m (rs ! i) = Some k"
    and d: "\<And>stream. decrypt L (hdr @ stream) rp =
              decrypt_loop L np k (PyBytes key) i stream 2 []"
  from chunks_with_empty_Some[OF cs, of message] ch obtain cks where
    cks: "chunks = cks @ [[]]" "concat cks = message" "\<forall>c \<in> set cks. c \<noteq> []"
    by auto
  have "chunks \<noteq> []" "last chunks = []" "\<forall>c \<in> set (butlast chunks). c \<noteq> []"
    using cks by simp_all
  from loop_roundtrip[OF L(1,3) i pl this] obtain bs where
    bs: "ct = hdr @ bs"
      "\<forall>extra acc. decrypt_loop L np k (PyBytes key) i (bs @ extra) (0 + 2) acc =
         Some (Inr (acc @ concat chunks))"
    by blast
  from bs(2)[rule_format, of "[]" "[]"] cks
  have "decrypt_loop L np k (PyBytes key) i bs 2 [] = Some (Inr message)" by simp
  with d[of bs] bs(1) show "decrypt L ct rp = Some (Inr message)" by simp
qed

lemma decrypt_loop_bad_packet:
  assumes "counter pn = Inr c" "unpack L stream = Inr (packet, stream')" "unpack2 packet = Inl e"
  shows "decrypt_loop L np sb key idx stream pn out = Some (Inl e)"
  by (subst decrypt_loop.simps) (simp add: decrypt_packet_def assms)

lemma decrypt_loop_no_tag_box:
  assumes "counter pn = Inr c" "unpack L stream = Inr (packet, stream')"
    "unpack2 packet = Inr (tag_boxes, body)" "py_getitem tag_boxes idx = Inl e"
  shows "decrypt_loop L np sb key idx stream pn out = Some (Inl e)"
  by (subst decrypt_loop.simps) (simp add: decrypt_packet_def assms)

lemma decrypt_packet_other_boxes:
  assumes "unpack L s = Inr (PyList [PyList tbs, body], rest)"
    and "unpack L s' = Inr (PyList [PyList tbs', body], rest)"
    and "idx < length tbs" "idx < length tbs'" "tbs ! idx = tbs' ! idx"
  shows "decrypt_packet L np sb key idx s pn = decrypt_packet L np sb key idx s' pn"
  by (cases "counter pn") (simp_all add: decrypt_packet_def assms Let_def)

lemma decrypt_loop_other_boxes:
  assumes "unpack L s = Inr (PyList [PyList tbs, body], rest)"
    and "unpack L s' = Inr (PyList [PyList tbs', body], rest)"
    and "idx < length tbs" "idx < length tbs'" "tbs ! idx = tbs' ! idx"
  shows "decrypt_loop L np sb key idx s pn out = decrypt_loop L np sb key idx s' pn out"
  by (subst decrypt_loop.simps, subst (2) decrypt_loop.simps)
     (simp add: decrypt_packet_other_boxes[OF assms])

lemma decrypt_packet_tag_box:
  assumes "counter pn = Inr c" "unpack L s = Inr (PyList [PyList tbs, body], rest)"
    "idx < length tbs"
  shows "decrypt_packet L np sb key idx s pn =
           (case crypto_box_open_afternm L (tbs ! idx) (np @ c) sb of
              Inl e \<Rightarrow> Inl e
            | Inr payload_tag \<Rightarrow>
                (case bytes_add payload_tag body of
                   Inl e \<Rightarrow> Inl e
                 | Inr payload_secretbox \<Rightarrow>
                     (case crypto_secretbox_open L payload_secretbox (np @ c) key of
                        Inl e \<Rightarrow> Inl e
                      | Inr chunk \<Rightarrow> Inr (chunk, rest))))"
  by (simp add: decrypt_packet_def assms Let_def)

lemma find_recipient_first:
  "j < length pairs \<Longrightarrow> unpack2 (pairs ! j) = Inr (uu, box) \<Longrightarrow>
   crypto_box_open_afternm L box (np @ be_bytes 8 0) k = Inr kb \<Longrightarrow>
   (\<forall>j' < j. \<exists>uu' box'. unpack2 (pairs ! j') = Inr (uu', box') \<and>
       crypto_box_open_afternm L box' (np @ be_bytes 8 0) k = Inl CryptoError) \<Longrightarrow>
   find_recipient L np k idx pairs = Inr (idx + j, kb)"
proof (induction pairs arbitrary: j idx)
  case Nil
  then show ?case by simp
next
  case (Cons p pairs)
  show ?case
  proof (cases j)
    case 0
    with Cons.prems show ?thesis by (simp add: counter_0)
  next
    case (Suc j')
    from Cons.prems(4) Suc obtain uu' box' where
      h: "unpack2 p = Inr (uu', box')"
        "crypto_box_open_afternm L box' (np @ be_bytes 8 0) k = Inl CryptoError"
      by fastforce
    have "\<forall>i < j'. \<exists>uu' box'. unpack2 (pairs ! i) = Inr (uu', box') \<and>
         crypto_box_open_afternm L box' (np @ be_bytes 8 0) k = Inl CryptoError"
      using Cons.prems(4) Suc by fastforce
    moreover have "j' < length pairs" using Cons.prems(1) Suc by simp
    moreover have "unpack2 (pairs ! j') = Inr (uu, box)" using Cons.prems(2) Suc by simp
    ultimately have "find_recipient L np k (Suc idx) pairs = Inr (Suc idx + j', kb)"
      using Cons.IH Cons.prems(3) by blast
    with h Suc show ?thesis by (simp add: counter_0)
  qed
qed

lemma find_recipient_none:
  "\<forall>p \<in> set pairs. \<exists>uu box. unpack2 p = Inr (uu, box) \<and>
       crypto_box_open_afternm L box (np @ be_bytes 8 0) k = Inl CryptoError \<Longrightarrow>
   find_recipient L np k idx pairs = Inl RuntimeError"
  by (induction pairs arbitrary: idx) (auto simp: counter_0)

lemma recipients_loop_agree:
  assumes "crypto_box_beforenm L' = crypto_box_beforenm L"
    and "\<And>m pk sk. crypto_box L' m hn pk sk = crypto_box L m hn pk sk"
  shows "recipients_loop L' sp ep kb hn rs pairs m =
         recipients_loop L sp ep kb hn rs pairs m"
  by (induction rs arbitrary: pairs m) (simp_all add: assms cong: sum.case_cong)

lemma tag_boxes_loop_agree:
  assumes "\<And>m k. crypto_box_afternm L' m n k = crypto_box_afternm L m n k"
  shows "tag_boxes_loop L' m tag n rs tbs = tag_boxes_loop L m tag n rs tbs"
  by (induction rs arbitrary: tbs) (simp_all add: assms cong: sum.case_cong option.case_cong)

lemma counter_1: "counter 1 = Inr (be_bytes 8 1)"
  using counter_be[of 1] by simp

lemma payload_packet_agree:
  assumes A: "agree_off_nonce (np @ be_bytes 8 1) L L'" and j: "0 \<le> j"
  shows "payload_packet L' np key rs m j chunk = payload_packet L np key rs m j chunk"
proof (cases "counter (j + 2)")
  case (Inl e)
  then show ?thesis by (simp add: payload_packet_def)
next
  case (Inr c)
  have "c \<noteq> be_bytes 8 1"
  proof
    assume "c = be_bytes 8 1"
    with Inr counter_1 counter_inj[of "j + 2" c 1] j show False by simp
  qed
  then have ne: "np @ c \<noteq> np @ be_bytes 8 1" by simp
  from A ne have s: "crypto_secretbox L' chunk (np @ c) key = crypto_secretbox L chunk (np @ c) key"
    and a: "\<And>m k. crypto_box_afternm L' m (np @ c) k = crypto_box_afternm L m (np @ c) k"
    by (simp_all add: agree_off_nonce_def)
  show ?thesis
    by (simp add: payload_packet_def Inr s tag_boxes_loop_agree[of L' "np @ c" L, OF a]
        cong: sum.case_cong)
qed

lemma packets_loop_agree:
  assumes A: "agree_off_nonce (np @ be_bytes 8 1) L L'"
  shows "0 \<le> j \<Longrightarrow> packets_loop L' np key rs m j chunks out =
         packets_loop L np key rs m j chunks out"
proof (induction chunks arbitrary: j out)
  case Nil
  show ?case by simp
next
  case (Cons chunk chunks)
  from A have pk: "packb L' = packb L" by (simp add: agree_off_nonce_def)
  from Cons.prems have "0 \<le> j + 1" by simp
  note ih = Cons.IH[OF this]
  show ?case
    by (simp add: payload_packet_agree[OF A Cons.prems] pk ih cong: sum.case_cong)
qed

lemma encrypt_agree:
  assumes e: "crypto_scalarmult_base L ep = Inr ephemeral_public"
    and A: "agree_off_nonce
              (take 16 (sha512 L (nonce_prefix_const @ ephemeral_public)) @ be_bytes 8 1) L L'"
  shows "encrypt L' ep key sp rs message cs = encrypt L ep key sp rs message cs"
proof -
  define np where "np = take 16 (sha512 L (nonce_prefix_const @ ephemeral_public))"
  note A' = A[folded np_def]
  from A have eqs: "crypto_scalarmult_base L' = crypto_scalarmult_base L"
    "crypto_box_beforenm L' = crypto_box_beforenm L" "sha512 L' = sha512 L" "packb L' = packb L"
    by (simp_all add: agree_off_nonce_def)
  have "be_bytes 8 0 \<noteq> be_bytes 8 1"
    using counter_inj[of 0 "be_bytes 8 0" 1] counter_0 counter_1 by auto
  then have "np @ be_bytes 8 0 \<noteq> np @ be_bytes 8 1" by simp
  with A' have b: "\<And>m pk sk. crypto_box L' m (np @ be_bytes 8 0) pk sk =
      crypto_box L m (np @ be_bytes 8 0) pk sk"
    by (simp add: agree_off_nonce_def)
  note rl = recipients_loop_agree[of L' L "np @ be_bytes 8 0", OF eqs(2) b]
  note pl = packets_loop_agree[OF A', of 0]
  show ?thesis
    by (simp add: encrypt_def eqs e counter_0 np_def[symmetric] rl pl
        cong: sum.case_cong option.case_cong)
qed


section \<open>The example, evaluated\<close>

lemma example_encrypt:
  "encrypt toy_libs (replicate 32 1) (replicate 32 7) jack_private [replicate 32 0xB3]
     [0x68, 0x69] 1 = Some (Inr example_ciphertext)"
  by code_simp

lemma jack_public: "crypto_scalarmult_base toy_libs jack_private = Inr (replicate 32 0xB3)"
  by (simp add: toy_libs_def toy_scalarmult_base_def jack_private_def)

lemma example_decrypt:
  "decrypt toy_libs example_ciphertext jack_private = Some (Inr [0x68, 0x69])"
  by code_simp

lemma frame_Cons: "toy_packb v = Inr b \<Longrightarrow> frame (v # vs) = b @ frame vs"
  by (simp add: frame_def)

lemma toy_unpack_frame:
  "toy_packb v = Inr b \<Longrightarrow> unpack toy_libs (frame (v # vs)) = Inr (v, frame vs)"
  using toy_unpack_packb[of v b "frame vs"] by (simp add: frame_Cons toy_libs_def)

lemma example_header_packs:
  "\<not> isl (toy_packb (example_header (PyStr ''SaltBox'') (PyList [PyInt 1, PyInt 0]) (PyInt 0)
                       [example_slot PyNone]))"
  "\<not> isl (toy_packb (example_header (PyStr ''SaltBox'') (PyList [PyInt 2, PyInt 0]) (PyInt 1)
                       [example_slot PyNone]))"
  "\<not> isl (toy_packb (example_header (PyStr ''SaltBox'') (PyList [PyInt 1, PyInt 0]) (PyInt 0)
                       [example_slot (PyBytes (replicate 32 0xB3))]))"
  by code_simp+

lemma toy_unpack_frame':
  "\<not> isl (toy_packb v) \<Longrightarrow> unpack toy_libs (frame (v # vs)) = Inr (v, frame vs)"
  by (cases "toy_packb v") (auto intro: toy_unpack_frame)


lemma example_truncated:
  "decrypt toy_libs
     (frame (example_header (PyStr ''SaltBox'') (PyList [PyInt 1, PyInt 0]) (PyInt 0)
               [example_slot PyNone] # butlast example_packets)) jack_private =
   Some (Inl InsufficientDataException)"
  by code_simp

lemma example_packet_packs:
  "\<not> isl (toy_packb (example_packet 2 [example_tag_box 2] [0x68]))"
  "\<not> isl (toy_packb (example_packet 2 [example_tag_box 2, [0xFF]] [0x68]))"
  by code_simp+

lemma example_two_slots_facts:
  "\<not> isl (toy_packb (example_header (PyStr ''SaltBox'') (PyList [PyInt 1, PyInt 0]) (PyInt 0)
                       example_two_slots))"
  "\<not> isl (toy_packb (example_header (PyStr ''SaltBox'') (PyList [PyInt 1, PyInt 0]) (PyInt 0)
                       [PyList [PyNone, PyBytes [1, 2, 3]]]))"
  "take 16 (sha512 toy_libs (nonce_prefix_const @ replicate 32 0x0A)) = replicate 16 0x0A"
  "crypto_box_open_afternm toy_libs (PyBytes [1, 2, 3]) (replicate 16 0x0A @ be_bytes 8 0)
     (replicate 32 0xB4) = Inl CryptoError"
  "crypto_box_open_afternm toy_libs
     (PyBytes (replicate 32 0xB4 @ example_nonce 0 @
                [0x92, 0xC4, 0x20] @ replicate 32 0xB3 @ [0xC4, 0x20] @ replicate 32 7))
     (replicate 16 0x0A @ be_bytes 8 0) (replicate 32 0xB4) =
     Inr ([0x92, 0xC4, 0x20] @ replicate 32 0xB3 @ [0xC4, 0x20] @ replicate 32 7)"
  "unpackb toy_libs ([0x92, 0xC4, 0x20] @ replicate 32 0xB3 @ [0xC4, 0x20] @ replicate 32 7) =
     Inr (PyList [PyBytes (replicate 32 0xB3), PyBytes (replicate 32 7)])"
  "crypto_box_beforenm toy_libs (PyBytes (replicate 32 0x0A)) jack_private = Inr (replicate 32 0xB4)"
  "crypto_box_beforenm toy_libs (PyBytes (replicate 32 0xB3)) jack_private = Inr (replicate 32 0x5D)"
  by code_simp+

lemma example_two_slots_decrypt:
  "decrypt toy_libs
     (frame (example_header (PyStr ''SaltBox'') (PyList [PyInt 1, PyInt 0]) (PyInt 0)
               example_two_slots # example_packets2)) jack_private = Some (Inr [0x68, 0x69])"
  by code_simp

section \<open>Round trip\<close>



section \<open>The header and the end of the stream\<close>

text \<open>
  C2 (amended). The decoder takes the header apart into five values and the version into
  two, and fails with TypeError or ValueError when the version is not a sequence of two.
  It compares none of format name, version numbers and mode with anything: two inputs
  whose headers differ only in these three fields have the same outcome.
\<close>

theorem header_fields_not_checked:
  assumes "unpack L input =
             Inr (PyList [format_name, version, mode, ephemeral_public, recipient_pairs], stream)"
  shows "(\<forall>e. unpack2 version = Inl e \<longrightarrow>
            decrypt L input recipient_private = Some (Inl e) \<and> (e = TypeError \<or> e = ValueError)) \<and>
         (\<forall>input' format_name' version' mode'.
            unpack L input' =
              Inr (PyList [format_name', version', mode', ephemeral_public, recipient_pairs],
                   stream) \<longrightarrow>
            (\<exists>major minor. unpack2 version = Inr (major, minor)) \<longrightarrow>
            (\<exists>major' minor'. unpack2 version' = Inr (major', minor')) \<longrightarrow>
            decrypt L input' recipient_private = decrypt L input recipient_private)"
proof (intro conjI allI impI)
  fix e assume "unpack2 version = Inl e"
  then show "decrypt L input recipient_private = Some (Inl e)"
    by (rule decrypt_bad_version[OF assms])
next
  fix e assume "unpack2 version = Inl e"
  then show "e = TypeError \<or> e = ValueError" by (rule unpack2_errors)
next
  fix input' format_name' version' mode'
  assume u': "unpack L input' =
      Inr (PyList [format_name', version', mode', ephemeral_public, recipient_pairs], stream)"
    and "\<exists>major minor. unpack2 version = Inr (major, minor)"
    and "\<exists>major' minor'. unpack2 version' = Inr (major', minor')"
  then obtain major minor major' minor' where
    "unpack2 version = Inr (major, minor)" "unpack2 version' = Inr (major', minor')"
    by blast
  from decrypt_header_fields[OF u' assms this(2,1)]
  show "decrypt L input' recipient_private = decrypt L input recipient_private" .
qed

theorem header_fields_not_checked_witness:
  "unpack toy_libs example_ciphertext =
     Inr (example_header (PyStr ''SaltBox'') (PyList [PyInt 1, PyInt 0]) (PyInt 0)
            [example_slot PyNone], frame example_packets) \<and>
   decrypt toy_libs
     (frame (example_header (PyStr ''SaltBox'') (PyList [PyInt 2, PyInt 0]) (PyInt 1)
               [example_slot PyNone] # example_packets)) jack_private =
   decrypt toy_libs example_ciphertext jack_private"
proof -
  have u: "unpack toy_libs example_ciphertext =
     Inr (PyList [PyStr ''SaltBox'', PyList [PyInt 1, PyInt 0], PyInt 0,
                  PyBytes (replicate 32 0x0A), PyList [example_slot PyNone]],
          frame example_packets)"
    using toy_unpack_frame'[OF example_header_packs(1)]
    by (simp add: example_ciphertext_def example_header_def)
  have u': "unpack toy_libs
     (frame (example_header (PyStr ''SaltBox'') (PyList [PyInt 2, PyInt 0]) (PyInt 1)
               [example_slot PyNone] # example_packets)) =
     Inr (PyList [PyStr ''SaltBox'', PyList [PyInt 2, PyInt 0], PyInt 1,
                  PyBytes (replicate 32 0x0A), PyList [example_slot PyNone]],
          frame example_packets)"
    using toy_unpack_frame'[OF example_header_packs(2)]
    by (simp add: example_header_def)
  from header_fields_not_checked[OF u, of jack_private] u'
  have "decrypt toy_libs
     (frame (example_header (PyStr ''SaltBox'') (PyList [PyInt 2, PyInt 0]) (PyInt 1)
               [example_slot PyNone] # example_packets)) jack_private =
     decrypt toy_libs example_ciphertext jack_private"
    by simp
  with u show ?thesis by (simp add: example_header_def)
qed

theorem mode_and_version_counterexample:
  "decrypt toy_libs
     (frame (example_header (PyStr ''SaltBox'') (PyList [PyInt 2, PyInt 0]) (PyInt 1)
               [example_slot PyNone] # example_packets)) jack_private =
   Some (Inr [0x68, 0x69])"
  by code_simp

text \<open>
  C10. The outcome of \<open>decrypt\<close> does not depend on the first component of a recipient
  pair: two inputs whose headers differ only there (the pairs agree on \<open>slot_box\<close>, their
  second component) have the same outcome under the same private key.
\<close>

theorem recipient_ids_ignored:
  assumes "unpack L input =
             Inr (PyList [format_name, version, mode, ephemeral_public, PyList slots], stream)"
    and "unpack L input' =
             Inr (PyList [format_name, version, mode, ephemeral_public, PyList slots'], stream)"
    and "map slot_box slots = map slot_box slots'"
  shows "decrypt L input recipient_private = decrypt L input' recipient_private"
  by (simp add: decrypt_def assms(1,2) find_recipient_slot_box[OF assms(3)]
        cong: sum.case_cong)

theorem recipient_ids_ignored_witness:
  "map slot_box [example_slot PyNone] = map slot_box [example_slot (PyBytes (replicate 32 0xB3))] \<and>
   decrypt toy_libs example_ciphertext jack_private =
   decrypt toy_libs
     (frame (example_header (PyStr ''SaltBox'') (PyList [PyInt 1, PyInt 0]) (PyInt 0)
               [example_slot (PyBytes (replicate 32 0xB3))] # example_packets)) jack_private"
proof -
  have s: "map slot_box [example_slot PyNone] =
           map slot_box [example_slot (PyBytes (replicate 32 0xB3))]"
    by (simp add: slot_box_def example_slot_def)
  have u: "unpack toy_libs example_ciphertext =
     Inr (PyList [PyStr ''SaltBox'', PyList [PyInt 1, PyInt 0], PyInt 0,
                  PyBytes (replicate 32 0x0A), PyList [example_slot PyNone]],
          frame example_packets)"
    using toy_unpack_frame'[OF example_header_packs(1)]
    by (simp add: example_ciphertext_def example_header_def)
  have u': "unpack toy_libs
     (frame (example_header (PyStr ''SaltBox'') (PyList [PyInt 1, PyInt 0]) (PyInt 0)
               [example_slot (PyBytes (replicate 32 0xB3))] # example_packets)) =
     Inr (PyList [PyStr ''SaltBox'', PyList [PyInt 1, PyInt 0], PyInt 0,
                  PyBytes (replicate 32 0x0A), PyList [example_slot (PyBytes (replicate 32 0xB3))]],
          frame example_packets)"
    using toy_unpack_frame'[OF example_header_packs(3)]
    by (simp add: example_header_def)
  from recipient_ids_ignored[OF u u' s, of jack_private] s show ?thesis by simp
qed

text \<open>
  C3 (amended). \<open>decrypt\<close> reads nothing after the packet with the empty chunk: when it
  returns a plaintext for an input, it returns the same plaintext for that input followed
  by any bytes. (Assumed of umsgpack: reading a value does not depend on what follows it.)
\<close>

theorem trailing_bytes_ignored:
  assumes P: "unpack_prefix L" and d: "decrypt L input recipient_private = Some (Inr plaintext)"
  shows "decrypt L (input @ extra) recipient_private = Some (Inr plaintext)"
proof -
  from d obtain header stream where un: "unpack L input = Inr (header, stream)"
    by (auto simp: decrypt_def split: sum.splits prod.splits)
  note un' = unpack_prefixD[OF P un, of extra]
  from d un obtain np sb key idx where
    loop: "decrypt_loop L np sb key idx stream 2 [] = Some (Inr plaintext)" and
    eq: "\<And>s. decrypt L (input @ extra) recipient_private = decrypt_loop L np sb key idx (stream @ extra) 2 []"
    by (auto simp: decrypt_def un' Let_def split: sum.splits prod.splits list.splits)
  from decrypt_loop_prefix[OF P loop, of extra] eq show ?thesis by simp
qed

theorem trailing_bytes_ignored_witness:
  "unpack_prefix toy_libs \<and>
   decrypt toy_libs example_ciphertext jack_private = Some (Inr [0x68, 0x69]) \<and>
   decrypt toy_libs (example_ciphertext @ [0xC0, 0xFF]) jack_private = Some (Inr [0x68, 0x69])"
  using trailing_bytes_ignored[OF toy_unpack_prefix example_decrypt, of "[0xC0, 0xFF]"]
    toy_unpack_prefix example_decrypt
  by simp

theorem trailing_byte_counterexample:
  "decrypt toy_libs (example_ciphertext @ [0x00]) jack_private = Some (Inr [0x68, 0x69])"
  by code_simp



section \<open>Payload packets on the way in\<close>




section \<open>Finding the recipient\<close>



lemma encrypt_shape:
  assumes "encrypt L ep key sp rs message cs = Some (Inr output)"
  shows "\<exists>sender_public ephemeral_public keys_bytes boxes hdr chunks pbs.
     crypto_scalarmult_base L sp = Inr sender_public \<and>
     crypto_scalarmult_base L ep = Inr ephemeral_public \<and>
     packb L (PyList [PyBytes sender_public, PyBytes key]) = Inr keys_bytes \<and>
     length boxes = length rs \<and>
     (\<forall>i < length rs.
        crypto_box L keys_bytes
          (take 16 (sha512 L (nonce_prefix_const @ ephemeral_public)) @ be_bytes 8 0)
          (rs ! i) ep = Inr (boxes ! i)) \<and>
     packb L (PyList [PyStr ''SaltBox'', PyList [PyInt 1, PyInt 0], PyInt 0,
                      PyBytes ephemeral_public,
                      PyList (map (\<lambda>b. PyList [PyNone, PyBytes b]) boxes)]) = Inr hdr \<and>
     chunks_with_empty message cs = Some chunks \<and>
     output = hdr @ concat pbs \<and> length pbs = length chunks \<and>
     (\<forall>j < length chunks. \<exists>ct tbs.
        counter (int j + 2) = Inr (be_bytes 8 (j + 2)) \<and>
        crypto_secretbox L (chunks ! j)
          (take 16 (sha512 L (nonce_prefix_const @ ephemeral_public)) @ be_bytes 8 (j + 2))
          key = Inr ct \<and>
        length tbs = length rs \<and>
        (\<forall>i < length rs. \<exists>k.
           crypto_box_beforenm L (PyBytes (rs ! i)) sp = Inr k \<and>
           crypto_box_afternm L (take 16 ct)
             (take 16 (sha512 L (nonce_prefix_const @ ephemeral_public)) @ be_bytes 8 (j + 2))
             k = Inr (tbs ! i)) \<and>
        packb L (PyList [PyList (map PyBytes tbs), PyBytes (drop 16 ct)]) = Inr (pbs ! j))"
proof -
  from assms obtain sender_public ephemeral_public keys_bytes c0 pairs m hdr chunks where
    spub: "crypto_scalarmult_base L sp = Inr sender_public" and
    epub: "crypto_scalarmult_base L ep = Inr ephemeral_public" and
    kb: "packb L (PyList [PyBytes sender_public, PyBytes key]) = Inr keys_bytes" and
    c0: "counter 0 = Inr c0" and
    rl: "recipients_loop L sp ep keys_bytes
       (take 16 (sha512 L (nonce_prefix_const @ ephemeral_public)) @ c0) rs [] Map.empty =
       Inr (pairs, m)" and
    hdr: "packb L (PyList [PyStr ''SaltBox'', PyList [PyInt 1, PyInt 0], PyInt 0,
                      PyBytes ephemeral_public, PyList pairs]) = Inr hdr" and
    ch: "chunks_with_empty message cs = Some chunks" and
    pl: "packets_loop L (take 16 (sha512 L (nonce_prefix_const @ ephemeral_public))) key rs m 0
       chunks hdr = Inr output"
    by (rule encrypt_Inr)
  define np where "np = take 16 (sha512 L (nonce_prefix_const @ ephemeral_public))"
  note rl = rl[folded np_def] and pl = pl[folded np_def]
  from c0 counter_0 have c0': "c0 = be_bytes 8 0" by simp
  from recipients_loop_shape[OF rl] obtain boxes where
    pairs: "pairs = map (\<lambda>b. PyList [PyNone, PyBytes b]) boxes" and
    boxes: "list_all2 (\<lambda>pk b. crypto_box L keys_bytes (np @ c0) pk ep = Inr b) rs boxes" and
    m: "\<forall>pk \<in> set rs. \<exists>k. crypto_box_beforenm L (PyBytes pk) sp = Inr k \<and> m pk = Some k"
    by auto
  from boxes have lb: "length boxes = length rs" by (simp add: list_all2_lengthD)
  have bx: "\<forall>i < length rs. crypto_box L keys_bytes (np @ be_bytes 8 0) (rs ! i) ep = Inr (boxes ! i)"
    using boxes c0' by (simp add: list_all2_conv_all_nth)
  from packets_loop_shape[OF pl] obtain pbs where
    pbs: "output = hdr @ concat pbs" "length pbs = length chunks"
      "\<forall>i < length chunks. \<exists>packet.
          payload_packet L np key rs m (0 + int i) (chunks ! i) = Inr packet \<and>
          packb L packet = Inr (pbs ! i)"
    by blast
  have pk: "\<forall>j < length chunks. \<exists>ct tbs.
        counter (int j + 2) = Inr (be_bytes 8 (j + 2)) \<and>
        crypto_secretbox L (chunks ! j) (np @ be_bytes 8 (j + 2)) key = Inr ct \<and>
        length tbs = length rs \<and>
        (\<forall>i < length rs. \<exists>k.
           crypto_box_beforenm L (PyBytes (rs ! i)) sp = Inr k \<and>
           crypto_box_afternm L (take 16 ct) (np @ be_bytes 8 (j + 2)) k = Inr (tbs ! i)) \<and>
        packb L (PyList [PyList (map PyBytes tbs), PyBytes (drop 16 ct)]) = Inr (pbs ! j)"
  proof (intro allI impI)
    fix j assume "j < length chunks"
    with pbs(3) obtain packet where
      p: "payload_packet L np key rs m (int j) (chunks ! j) = Inr packet" and
      pb: "packb L packet = Inr (pbs ! j)"
      by auto
    from payload_packet_shape[OF p] obtain c ct tbs where
      c: "counter (int j + 2) = Inr c" and
      ct: "crypto_secretbox L (chunks ! j) (np @ c) key = Inr ct" and
      tbs: "list_all2 (\<lambda>pk tb. \<exists>k. m pk = Some k \<and>
              crypto_box_afternm L (take 16 ct) (np @ c) k = Inr tb) rs tbs" and
      packet: "packet = PyList [PyList (map PyBytes tbs), PyBytes (drop 16 ct)]"
      by blast
    from c have c': "c = be_bytes 8 (j + 2)"
      by (simp add: counter_Inr nat_add_distrib)
    have "\<forall>i < length rs. \<exists>k.
           crypto_box_beforenm L (PyBytes (rs ! i)) sp = Inr k \<and>
           crypto_box_afternm L (take 16 ct) (np @ c) k = Inr (tbs ! i)"
    proof (intro allI impI)
      fix i assume i: "i < length rs"
      from list_all2_nthD[OF tbs i] obtain k where
        k: "m (rs ! i) = Some k" "crypto_box_afternm L (take 16 ct) (np @ c) k = Inr (tbs ! i)"
        by blast
      from m i obtain k' where
        "crypto_box_beforenm L (PyBytes (rs ! i)) sp = Inr k'" "m (rs ! i) = Some k'"
        by (meson nth_mem)
      with k show "\<exists>k. crypto_box_beforenm L (PyBytes (rs ! i)) sp = Inr k \<and>
           crypto_box_afternm L (take 16 ct) (np @ c) k = Inr (tbs ! i)"
        by auto
    qed
    with c ct tbs pb packet show "\<exists>ct tbs.
        counter (int j + 2) = Inr (be_bytes 8 (j + 2)) \<and>
        crypto_secretbox L (chunks ! j) (np @ be_bytes 8 (j + 2)) key = Inr ct \<and>
        length tbs = length rs \<and>
        (\<forall>i < length rs. \<exists>k.
           crypto_box_beforenm L (PyBytes (rs ! i)) sp = Inr k \<and>
           crypto_box_afternm L (take 16 ct) (np @ be_bytes 8 (j + 2)) k = Inr (tbs ! i)) \<and>
        packb L (PyList [PyList (map PyBytes tbs), PyBytes (drop 16 ct)]) = Inr (pbs ! j)"
      unfolding c'
      by (intro exI[of _ ct] exI[of _ tbs]) (simp add: list_all2_lengthD)
  qed
  show ?thesis
    using spub epub kb lb bx hdr[unfolded pairs] ch pbs(1,2) pk
    unfolding np_def
    by (intro exI[of _ sender_public] exI[of _ ephemeral_public] exI[of _ keys_bytes]
          exI[of _ boxes] exI[of _ hdr] exI[of _ chunks] exI[of _ pbs] conjI)
qed

lemma example_nonce_be: "example_nonce i = replicate 16 0x0A @ be_bytes 8 i" if "i < 256" for i
proof -
  have "replicate 7 (0 :: 8 word) = [0, 0, 0, 0, 0, 0, 0]"
    by (simp add: numeral_eq_Suc)
  moreover have "be_bytes 8 i = [0, 0, 0, 0, 0, 0, 0, of_nat i]"
    using that by (simp add: be_bytes_8)
  ultimately show ?thesis by (simp add: example_nonce_def)
qed

lemma example_agree:
  "agree_off_nonce (replicate 16 0x0A @ be_bytes 8 1) toy_libs toy_libs_without_counter1"
  using example_nonce_be[of 1]
  by (simp add: agree_off_nonce_def toy_libs_without_counter1_def toy_libs_def)

lemma example_nonce_prefix:
  "take 16 (sha512 toy_libs (bytes_of ''SaltPack'' @ [0] @ bytes_of ''encryption nonce prefix'' @
      [0] @ replicate 32 0x0A)) = replicate 16 0x0A"
  by code_simp

lemma example_ephemeral_public:
  "crypto_scalarmult_base toy_libs (replicate 32 1) = Inr (replicate 32 0x0A)"
  by (simp add: toy_libs_def toy_scalarmult_base_def)

section \<open>What encrypt writes\<close>

text \<open>
  C7. When \<open>encrypt\<close> returns, its output is the packed header followed by one packed
  packet for each chunk of \<open>chunks_with_empty\<close>, in order. Packet \<open>j\<close> is
  \<open>[tag_boxes, body]\<close>, where \<open>ct = crypto_secretbox chunk_j Nonce(j+2) encryption_key\<close>,
  \<open>body\<close> is \<open>ct\<close> without its first 16 bytes, and \<open>tag_boxes[i]\<close> is the first 16 bytes
  of \<open>ct\<close> sealed by \<open>crypto_box_afternm\<close> under \<open>Nonce(j+2)\<close> and the shared secret of the
  sender's private key and recipient \<open>i\<close>'s public key, recipients in the order given.
\<close>

theorem encrypt_packets:
  assumes "encrypt L ephemeral_private encryption_key sender_private recipient_public_keys
             message chunk_size = Some (Inr output)"
  shows "\<exists>ephemeral_public header_bytes chunks packet_bytes.
     crypto_scalarmult_base L ephemeral_private = Inr ephemeral_public \<and>
     chunks_with_empty message chunk_size = Some chunks \<and>
     output = header_bytes @ concat packet_bytes \<and> length packet_bytes = length chunks \<and>
     (\<forall>j < length chunks. \<exists>c ct tag_boxes.
        counter (int j + 2) = Inr c \<and>
        crypto_secretbox L (chunks ! j)
          (take 16 (sha512 L (nonce_prefix_const @ ephemeral_public)) @ c)
          encryption_key = Inr ct \<and>
        length tag_boxes = length recipient_public_keys \<and>
        (\<forall>i < length recipient_public_keys. \<exists>k.
           crypto_box_beforenm L (PyBytes (recipient_public_keys ! i)) sender_private = Inr k \<and>
           crypto_box_afternm L (take 16 ct)
             (take 16 (sha512 L (nonce_prefix_const @ ephemeral_public)) @ c) k =
             Inr (tag_boxes ! i)) \<and>
        packb L (PyList [PyList (map PyBytes tag_boxes), PyBytes (drop 16 ct)]) =
          Inr (packet_bytes ! j))"
proof -
  from encrypt_shape[OF assms] obtain ephemeral_public hdr chunks pbs where
    s: "crypto_scalarmult_base L ephemeral_private = Inr ephemeral_public"
      "chunks_with_empty message chunk_size = Some chunks"
      "output = hdr @ concat pbs" "length pbs = length chunks"
      "\<forall>j < length chunks. \<exists>ct tbs.
        counter (int j + 2) = Inr (be_bytes 8 (j + 2)) \<and>
        crypto_secretbox L (chunks ! j)
          (take 16 (sha512 L (nonce_prefix_const @ ephemeral_public)) @ be_bytes 8 (j + 2))
          encryption_key = Inr ct \<and>
        length tbs = length recipient_public_keys \<and>
        (\<forall>i < length recipient_public_keys. \<exists>k.
           crypto_box_beforenm L (PyBytes (recipient_public_keys ! i)) sender_private = Inr k \<and>
           crypto_box_afternm L (take 16 ct)
             (take 16 (sha512 L (nonce_prefix_const @ ephemeral_public)) @ be_bytes 8 (j + 2))
             k = Inr (tbs ! i)) \<and>
        packb L (PyList [PyList (map PyBytes tbs), PyBytes (drop 16 ct)]) = Inr (pbs ! j)"
    by (elim exE conjE)
  from s(5) have "\<forall>j < length chunks. \<exists>c ct tag_boxes.
        counter (int j + 2) = Inr c \<and>
        crypto_secretbox L (chunks ! j)
          (take 16 (sha512 L (nonce_prefix_const @ ephemeral_public)) @ c)
          encryption_key = Inr ct \<and>
        length tag_boxes = length recipient_public_keys \<and>
        (\<forall>i < length recipient_public_keys. \<exists>k.
           crypto_box_beforenm L (PyBytes (recipient_public_keys ! i)) sender_private = Inr k \<and>
           crypto_box_afternm L (take 16 ct)
             (take 16 (sha512 L (nonce_prefix_const @ ephemeral_public)) @ c) k =
             Inr (tag_boxes ! i)) \<and>
        packb L (PyList [PyList (map PyBytes tag_boxes), PyBytes (drop 16 ct)]) =
          Inr (pbs ! j)"
    by meson
  with s(1-4) show ?thesis by blast
qed

theorem encrypt_packets_witness:
  "encrypt toy_libs (replicate 32 1) (replicate 32 7) jack_private [replicate 32 0xB3]
     [0x68, 0x69] 1 = Some (Inr example_ciphertext) \<and>
   (\<exists>header_bytes packet_bytes.
     example_ciphertext = header_bytes @ concat packet_bytes \<and> length packet_bytes = 3 \<and>
     (\<exists>c ct tag_boxes.
        counter 2 = Inr c \<and>
        crypto_secretbox toy_libs [0x68] (replicate 16 0x0A @ c) (replicate 32 7) = Inr ct \<and>
        length tag_boxes = 1 \<and>
        (\<exists>k. crypto_box_beforenm toy_libs (PyBytes (replicate 32 0xB3)) jack_private = Inr k \<and>
           crypto_box_afternm toy_libs (take 16 ct) (replicate 16 0x0A @ c) k =
             Inr (tag_boxes ! 0)) \<and>
        packb toy_libs (PyList [PyList (map PyBytes tag_boxes), PyBytes (drop 16 ct)]) =
          Inr (packet_bytes ! 0)))"
proof -
  have c: "chunks_with_empty [0x68, 0x69] 1 = Some [[0x68], [0x69], []]"
    by (simp add: chunks_with_empty_def chunks_loop.simps py_slice_def)
  from encrypt_packets[OF example_encrypt] obtain ephemeral_public header_bytes chunks
    packet_bytes where
    s: "crypto_scalarmult_base toy_libs (replicate 32 1) = Inr ephemeral_public"
      "chunks_with_empty [0x68, 0x69] 1 = Some chunks"
      "example_ciphertext = header_bytes @ concat packet_bytes"
      "length packet_bytes = length chunks"
      "\<forall>j < length chunks. \<exists>c ct tag_boxes.
        counter (int j + 2) = Inr c \<and>
        crypto_secretbox toy_libs (chunks ! j)
          (take 16 (sha512 toy_libs (nonce_prefix_const @ ephemeral_public)) @ c)
          (replicate 32 7) = Inr ct \<and>
        length tag_boxes = length [replicate 32 (0xB3 :: 8 word)] \<and>
        (\<forall>i < length [replicate 32 (0xB3 :: 8 word)]. \<exists>k.
           crypto_box_beforenm toy_libs (PyBytes ([replicate 32 0xB3] ! i)) jack_private = Inr k \<and>
           crypto_box_afternm toy_libs (take 16 ct)
             (take 16 (sha512 toy_libs (nonce_prefix_const @ ephemeral_public)) @ c) k =
             Inr (tag_boxes ! i)) \<and>
        packb toy_libs (PyList [PyList (map PyBytes tag_boxes), PyBytes (drop 16 ct)]) =
          Inr (packet_bytes ! j)"
    by (elim exE conjE)
  from s(1) example_ephemeral_public have e: "ephemeral_public = replicate 32 0x0A" by simp
  from s(2) c have ch: "chunks = [[0x68], [0x69], []]" by simp
  have np: "take 16 (sha512 toy_libs (nonce_prefix_const @ replicate 32 0x0A)) = replicate 16 0x0A"
    using example_nonce_prefix by (simp add: nonce_prefix_const_def)
  from s(5)[rule_format, of 0] obtain c ct tag_boxes k where
    p: "counter 2 = Inr c"
      "crypto_secretbox toy_libs [0x68] (replicate 16 0x0A @ c) (replicate 32 7) = Inr ct"
      "length tag_boxes = 1"
      "crypto_box_beforenm toy_libs (PyBytes (replicate 32 0xB3)) jack_private = Inr k"
      "crypto_box_afternm toy_libs (take 16 ct) (replicate 16 0x0A @ c) k = Inr (tag_boxes ! 0)"
      "packb toy_libs (PyList [PyList (map PyBytes tag_boxes), PyBytes (drop 16 ct)]) =
         Inr (packet_bytes ! 0)"
    by (auto simp: ch e np)
  from s(4) ch have l: "length packet_bytes = 3" by simp
  show ?thesis
    by (intro conjI example_encrypt exI[of _ header_bytes] exI[of _ packet_bytes]
          exI[of _ c] exI[of _ ct] exI[of _ tag_boxes] exI[of _ k] s(3) l p)
qed

text \<open>
  C8. The nonce prefix is the first 16 bytes of the SHA-512 digest of
  \<open>"SaltPack\0encryption nonce prefix\0"\<close> followed by the ephemeral public key (16 bytes,
  for a digest of 64). Every nonce \<open>encrypt\<close> seals under is this prefix followed by
  \<open>counter\<close> of a number, that is its 8 bytes most significant first: 0 for the box of
  every recipient in the header, \<open>j + 2\<close> for the secret box and the tag boxes of packet
  \<open>j\<close>. Counter 1 is used for nothing: libraries that differ from \<open>L\<close> only in what the
  sealing functions do under \<open>Nonce(1)\<close> give the same output.
\<close>

theorem nonces_used:
  assumes "encrypt L ephemeral_private encryption_key sender_private recipient_public_keys
             message chunk_size = Some (Inr output)"
  shows "\<exists>ephemeral_public nonce_prefix.
     crypto_scalarmult_base L ephemeral_private = Inr ephemeral_public \<and>
     nonce_prefix =
       take 16 (sha512 L (bytes_of ''SaltPack'' @ [0] @ bytes_of ''encryption nonce prefix'' @
                          [0] @ ephemeral_public)) \<and>
     ((\<forall>x. length (sha512 L x) = 64) \<longrightarrow> length nonce_prefix = 16) \<and>
     (\<exists>sender_public keys_bytes boxes header_bytes chunks packet_bytes.
        packb L (PyList [PyBytes sender_public, PyBytes encryption_key]) = Inr keys_bytes \<and>
        length boxes = length recipient_public_keys \<and>
        (\<forall>i < length recipient_public_keys.
           crypto_box L keys_bytes (nonce_prefix @ be_bytes 8 0) (recipient_public_keys ! i)
             ephemeral_private = Inr (boxes ! i)) \<and>
        packb L (PyList [PyStr ''SaltBox'', PyList [PyInt 1, PyInt 0], PyInt 0,
                         PyBytes ephemeral_public,
                         PyList (map (\<lambda>b. PyList [PyNone, PyBytes b]) boxes)]) =
          Inr header_bytes \<and>
        chunks_with_empty message chunk_size = Some chunks \<and>
        output = header_bytes @ concat packet_bytes \<and> length packet_bytes = length chunks \<and>
        (\<forall>j < length chunks. \<exists>ct tag_boxes.
           crypto_secretbox L (chunks ! j) (nonce_prefix @ be_bytes 8 (j + 2)) encryption_key =
             Inr ct \<and>
           length tag_boxes = length recipient_public_keys \<and>
           (\<forall>i < length recipient_public_keys. \<exists>k.
              crypto_box_beforenm L (PyBytes (recipient_public_keys ! i)) sender_private =
                Inr k \<and>
              crypto_box_afternm L (take 16 ct) (nonce_prefix @ be_bytes 8 (j + 2)) k =
                Inr (tag_boxes ! i)) \<and>
           packb L (PyList [PyList (map PyBytes tag_boxes), PyBytes (drop 16 ct)]) =
             Inr (packet_bytes ! j))) \<and>
     (\<forall>n < 2 ^ 64. counter (int n) = Inr (be_bytes 8 n) \<and> length (be_bytes 8 n) = 8 \<and>
        be_val (be_bytes 8 n) = n) \<and>
     (\<forall>L'. agree_off_nonce (nonce_prefix @ be_bytes 8 1) L L' \<longrightarrow>
        encrypt L' ephemeral_private encryption_key sender_private recipient_public_keys
          message chunk_size = Some (Inr output))"
proof -
  from encrypt_shape[OF assms] obtain sender_public ephemeral_public keys_bytes boxes hdr
    chunks pbs where
    s: "crypto_scalarmult_base L ephemeral_private = Inr ephemeral_public"
      "packb L (PyList [PyBytes sender_public, PyBytes encryption_key]) = Inr keys_bytes"
      "length boxes = length recipient_public_keys"
      "\<forall>i < length recipient_public_keys.
        crypto_box L keys_bytes
          (take 16 (sha512 L (nonce_prefix_const @ ephemeral_public)) @ be_bytes 8 0)
          (recipient_public_keys ! i) ephemeral_private = Inr (boxes ! i)"
      "packb L (PyList [PyStr ''SaltBox'', PyList [PyInt 1, PyInt 0], PyInt 0,
                      PyBytes ephemeral_public,
                      PyList (map (\<lambda>b. PyList [PyNone, PyBytes b]) boxes)]) = Inr hdr"
      "chunks_with_empty message chunk_size = Some chunks"
      "output = hdr @ concat pbs" "length pbs = length chunks"
      "\<forall>j < length chunks. \<exists>ct tbs.
        counter (int j + 2) = Inr (be_bytes 8 (j + 2)) \<and>
        crypto_secretbox L (chunks ! j)
          (take 16 (sha512 L (nonce_prefix_const @ ephemeral_public)) @ be_bytes 8 (j + 2))
          encryption_key = Inr ct \<and>
        length tbs = length recipient_public_keys \<and>
        (\<forall>i < length recipient_public_keys. \<exists>k.
           crypto_box_beforenm L (PyBytes (recipient_public_keys ! i)) sender_private = Inr k \<and>
           crypto_box_afternm L (take 16 ct)
             (take 16 (sha512 L (nonce_prefix_const @ ephemeral_public)) @ be_bytes 8 (j + 2))
             k = Inr (tbs ! i)) \<and>
        packb L (PyList [PyList (map PyBytes tbs), PyBytes (drop 16 ct)]) = Inr (pbs ! j)"
    by (elim exE conjE)
  define np where "np = take 16 (sha512 L (nonce_prefix_const @ ephemeral_public))"
  have np: "np = take 16 (sha512 L (bytes_of ''SaltPack'' @ [0] @
      bytes_of ''encryption nonce prefix'' @ [0] @ ephemeral_public))"
    by (simp add: np_def nonce_prefix_const_def)
  have len: "(\<forall>x. length (sha512 L x) = 64) \<longrightarrow> length np = 16"
    by (simp add: np_def)
  have pk: "\<forall>j < length chunks. \<exists>ct tag_boxes.
           crypto_secretbox L (chunks ! j) (np @ be_bytes 8 (j + 2)) encryption_key = Inr ct \<and>
           length tag_boxes = length recipient_public_keys \<and>
           (\<forall>i < length recipient_public_keys. \<exists>k.
              crypto_box_beforenm L (PyBytes (recipient_public_keys ! i)) sender_private =
                Inr k \<and>
              crypto_box_afternm L (take 16 ct) (np @ be_bytes 8 (j + 2)) k =
                Inr (tag_boxes ! i)) \<and>
           packb L (PyList [PyList (map PyBytes tag_boxes), PyBytes (drop 16 ct)]) =
             Inr (pbs ! j)"
    using s(9) unfolding np_def by meson
  have hd: "\<exists>sender_public keys_bytes boxes header_bytes chunks packet_bytes.
        packb L (PyList [PyBytes sender_public, PyBytes encryption_key]) = Inr keys_bytes \<and>
        length boxes = length recipient_public_keys \<and>
        (\<forall>i < length recipient_public_keys.
           crypto_box L keys_bytes (np @ be_bytes 8 0) (recipient_public_keys ! i)
             ephemeral_private = Inr (boxes ! i)) \<and>
        packb L (PyList [PyStr ''SaltBox'', PyList [PyInt 1, PyInt 0], PyInt 0,
                         PyBytes ephemeral_public,
                         PyList (map (\<lambda>b. PyList [PyNone, PyBytes b]) boxes)]) =
          Inr header_bytes \<and>
        chunks_with_empty message chunk_size = Some chunks \<and>
        output = header_bytes @ concat packet_bytes \<and> length packet_bytes = length chunks \<and>
        (\<forall>j < length chunks. \<exists>ct tag_boxes.
           crypto_secretbox L (chunks ! j) (np @ be_bytes 8 (j + 2)) encryption_key =
             Inr ct \<and>
           length tag_boxes = length recipient_public_keys \<and>
           (\<forall>i < length recipient_public_keys. \<exists>k.
              crypto_box_beforenm L (PyBytes (recipient_public_keys ! i)) sender_private =
                Inr k \<and>
              crypto_box_afternm L (take 16 ct) (np @ be_bytes 8 (j + 2)) k =
                Inr (tag_boxes ! i)) \<and>
           packb L (PyList [PyList (map PyBytes tag_boxes), PyBytes (drop 16 ct)]) =
             Inr (packet_bytes ! j))"
    using s(2,3) s(4)[folded np_def] s(5,6,7,8) pk
    by (intro exI[of _ sender_public] exI[of _ keys_bytes] exI[of _ boxes] exI[of _ hdr]
          exI[of _ chunks] exI[of _ pbs] conjI)
  have cnt: "\<forall>n < 2 ^ 64. counter (int n) = Inr (be_bytes 8 n) \<and> length (be_bytes 8 n) = 8 \<and>
        be_val (be_bytes 8 n) = n"
  proof (intro allI impI)
    fix n :: nat assume n: "n < 2 ^ 64"
    then have "int n < 2 ^ 64" by (metis of_nat_less_numeral_power_cancel_iff)
    then have "counter (int n) = Inr (be_bytes 8 n)"
      using counter_be[of "int n"] by simp
    moreover from n have "n < 256 ^ 8" by simp
    then have "be_val (be_bytes 8 n) = n" by (rule be_val_be_bytes)
    ultimately show "counter (int n) = Inr (be_bytes 8 n) \<and> length (be_bytes 8 n) = 8 \<and>
        be_val (be_bytes 8 n) = n" by simp
  qed
  have ag: "\<forall>L'. agree_off_nonce (np @ be_bytes 8 1) L L' \<longrightarrow>
        encrypt L' ephemeral_private encryption_key sender_private recipient_public_keys
          message chunk_size = Some (Inr output)"
    using encrypt_agree[OF s(1)] assms unfolding np_def by simp
  show ?thesis
    by (rule exI[of _ ephemeral_public], rule exI[of _ np]) (intro conjI s(1) np len hd cnt ag)
qed

theorem nonces_used_witness:
  "encrypt toy_libs (replicate 32 1) (replicate 32 7) jack_private [replicate 32 0xB3]
     [0x68, 0x69] 1 = Some (Inr example_ciphertext) \<and>
   agree_off_nonce (replicate 16 0x0A @ be_bytes 8 1) toy_libs toy_libs_without_counter1 \<and>
   encrypt toy_libs_without_counter1 (replicate 32 1) (replicate 32 7) jack_private
     [replicate 32 0xB3] [0x68, 0x69] 1 = Some (Inr example_ciphertext)"
proof -
  from nonces_used[OF example_encrypt] obtain ephemeral_public nonce_prefix where
    e: "crypto_scalarmult_base toy_libs (replicate 32 1) = Inr ephemeral_public" and
    n: "nonce_prefix =
       take 16 (sha512 toy_libs (bytes_of ''SaltPack'' @ [0] @
                  bytes_of ''encryption nonce prefix'' @ [0] @ ephemeral_public))" and
    a: "\<forall>L'. agree_off_nonce (nonce_prefix @ be_bytes 8 1) toy_libs L' \<longrightarrow>
        encrypt L' (replicate 32 1) (replicate 32 7) jack_private [replicate 32 0xB3]
          [0x68, 0x69] 1 = Some (Inr example_ciphertext)"
    by (elim exE conjE)
  from e example_ephemeral_public have "ephemeral_public = replicate 32 0x0A" by simp
  with n example_nonce_prefix have "nonce_prefix = replicate 16 0x0A" by simp
  with a example_agree have
    "encrypt toy_libs_without_counter1 (replicate 32 1) (replicate 32 7) jack_private
       [replicate 32 0xB3] [0x68, 0x69] 1 = Some (Inr example_ciphertext)"
    by blast
  with example_encrypt example_agree show ?thesis by simp
qed

end
